theory Spec2Isabelle
  imports Main
begin

section \<open>Strings\<close>

text \<open>
  A Python \<open>str\<close> is a sequence of code points. The development covers the strings whose
  code points are below 256: each \<open>char\<close> stands for one code point, and \<open>length\<close> counts
  code points. On this range \<open>str.isspace\<close>, the regular-expression class \<open>\s\<close> and the
  characters removed by \<open>str.strip()\<close> coincide, \<open>\d\<close> is \<open>0\<close> to \<open>9\<close>, and \<open>str.lower\<close> maps
  one character to one character.
\<close>

definition isspace :: "char \<Rightarrow> bool" where
  "isspace c \<longleftrightarrow> c \<in> {CHR 0x09, CHR 0x0A, CHR 0x0B, CHR 0x0C, CHR 0x0D,
                     CHR 0x1C, CHR 0x1D, CHR 0x1E, CHR 0x1F, CHR 0x20, CHR 0x85, CHR 0xA0}"

definition isdigit :: "char \<Rightarrow> bool" where
  "isdigit c \<longleftrightarrow> c \<in> set ''0123456789''"

definition strip :: "string \<Rightarrow> string" where
  "strip s = rev (dropWhile isspace (rev (dropWhile isspace s)))"

definition lower_char :: "char \<Rightarrow> char" where
  "lower_char c =
     (let n = (of_char c :: nat)
      in if (65 \<le> n \<and> n \<le> 90) \<or> (192 \<le> n \<and> n \<le> 222 \<and> n \<noteq> 215)
         then char_of (n + 32) else c)"

definition lower :: "string \<Rightarrow> string" where
  "lower s = map lower_char s"

text \<open>\<open>needle in haystack\<close> on strings.\<close>

definition startswith :: "string \<Rightarrow> string \<Rightarrow> bool" where
  "startswith s p \<longleftrightarrow> take (length p) s = p"

fun contains :: "string \<Rightarrow> string \<Rightarrow> bool" where
  "contains [] needle = (needle = [])"
| "contains (c # cs) needle = (startswith (c # cs) needle \<or> contains cs needle)"

text \<open>\<open>s.split(sep)\<close> for a one-character separator.\<close>

fun split_on :: "char \<Rightarrow> string \<Rightarrow> string list" where
  "split_on sep [] = [[]]"
| "split_on sep (c # cs) =
     (if c = sep then [] # split_on sep cs
      else (case split_on sep cs of
              [] \<Rightarrow> [[c]]
            | l # ls \<Rightarrow> (c # l) # ls))"

text \<open>\<open>s.replace(old, '')\<close>: every non-overlapping occurrence, from the left.\<close>

function remove_all :: "string \<Rightarrow> string \<Rightarrow> string" where
  "remove_all old [] = []"
| "remove_all old (c # cs) =
     (if old \<noteq> [] \<and> startswith (c # cs) old
      then remove_all old (drop (length old) (c # cs))
      else c # remove_all old cs)"
  by pat_completeness auto
termination
  by (relation "measure (\<lambda>(old, s). length s)") auto


section \<open>Term normalisation\<close>

text \<open>
  The two suffix rules of \<open>clean_search_term\<close> are
  \<open>re.sub(r'\s+school\s+district$', '', s, flags=re.IGNORECASE)\<close> and
  \<open>re.sub(r'\s+district$', '', s, flags=re.IGNORECASE)\<close>. Both patterns are a sequence of
  words, each preceded by \<open>\s+\<close>, anchored by \<open>$\<close>.

  \<open>end_match\<close> works on the reversed subject, with the reversed words last word first.
  A word is matched case-insensitively; the whitespace before it must be at least one
  character, and the whole run is consumed: the words start with a letter, so \<open>\s+\<close> can
  stop nowhere else inside the pattern, and before the first word the leftmost match
  starts at the beginning of the run. The result is the reversed text to the left of the
  leftmost match.
\<close>

fun end_match :: "string list \<Rightarrow> string \<Rightarrow> string option" where
  "end_match [] r = Some r"
| "end_match (w # ws) r =
     (if lower (take (length w) r) = lower w
      then (case drop (length w) r of
              [] \<Rightarrow> None
            | c # r' \<Rightarrow> if isspace c then end_match ws (dropWhile isspace r') else None)
      else None)"

text \<open>
  \<open>$\<close> matches at the end of the string and also just before a newline that ends the
  string; a pattern that ends in a letter can match at one of the two places only, so
  there is at most one match to replace.
\<close>

definition re_sub_trailing :: "string list \<Rightarrow> string \<Rightarrow> string" where
  "re_sub_trailing ws s =
     (let pat = map rev (rev ws) in
      case end_match pat (rev s) of
        Some r \<Rightarrow> rev r
      | None \<Rightarrow>
          (case rev s of
             [] \<Rightarrow> s
           | c # r \<Rightarrow>
               if c = CHR 0x0A
               then (case end_match pat r of Some r' \<Rightarrow> rev r' @ [c] | None \<Rightarrow> s)
               else s))"

text \<open>\<open>re.sub(r'\s+', ' ', s)\<close>: every maximal run of whitespace becomes one space.\<close>

function re_sub_spaces :: "string \<Rightarrow> string" where
  "re_sub_spaces [] = []"
| "re_sub_spaces (c # cs) =
     (if isspace c then CHR '' '' # re_sub_spaces (dropWhile isspace cs)
      else c # re_sub_spaces cs)"
  by pat_completeness auto
termination
  by (relation "measure length") (auto simp: length_dropWhile_le le_imp_less_Suc)

definition clean_search_term :: "string \<Rightarrow> string" where
  "clean_search_term term =
     (let cleaned_name = strip term;
          cleaned_name = strip (re_sub_trailing [''school'', ''district''] cleaned_name);
          cleaned_name = strip (re_sub_trailing [''district''] cleaned_name);
          cleaned_name = strip (re_sub_spaces cleaned_name)
      in cleaned_name)"

text \<open>
  \<open>re.search(r'\s+district$', s, re.IGNORECASE)\<close> finds a match, for a string \<open>s\<close> that does
  not end in a newline.
\<close>

definition ends_with_district :: "string \<Rightarrow> bool" where
  "ends_with_district s \<longleftrightarrow>
     8 < length s \<and> lower (drop (length s - 8) s) = ''district''
       \<and> isspace (s ! (length s - 9))"


section \<open>Contact extraction\<close>

datatype exn =
  TimeoutException | NoSuchElementException | StaleElementReferenceException | OtherException

text \<open>
  The pattern \<open>\(?\d{3}\)?[-.\s]?\d{3}[-.\s]?\d{4}\<close>. Each optional item is followed by a
  digit, which the item's own class excludes, so the greedy choice is the only one that
  can succeed and no backtracking is needed.
\<close>

definition optional :: "(char \<Rightarrow> bool) \<Rightarrow> string \<Rightarrow> string \<times> string" where
  "optional p s = (case s of c # cs \<Rightarrow> if p c then ([c], cs) else ([], s) | [] \<Rightarrow> ([], s))"

definition digits :: "nat \<Rightarrow> string \<Rightarrow> (string \<times> string) option" where
  "digits n s =
     (if n \<le> length s \<and> (\<forall>c \<in> set (take n s). isdigit c)
      then Some (take n s, drop n s) else None)"

definition is_sep :: "char \<Rightarrow> bool" where
  "is_sep c \<longleftrightarrow> c = CHR ''-'' \<or> c = CHR ''.'' \<or> isspace c"

definition phone_match :: "string \<Rightarrow> string option" where
  "phone_match s =
     (let (a, s1) = optional (\<lambda>c. c = CHR ''('') s in
      (case digits 3 s1 of
         None \<Rightarrow> None
       | Some (b, s2) \<Rightarrow>
          (let (c, s3) = optional (\<lambda>c. c = CHR '')'') s2;
               (d, s4) = optional is_sep s3 in
           (case digits 3 s4 of
              None \<Rightarrow> None
            | Some (e, s5) \<Rightarrow>
               (let (f, s6) = optional is_sep s5 in
                (case digits 4 s6 of
                   None \<Rightarrow> None
                 | Some (g, s7) \<Rightarrow> Some (a @ b @ c @ d @ e @ f @ g)))))))"

text \<open>\<open>re.search\<close>: the match at the leftmost position that has one.\<close>

fun re_search_phone :: "string \<Rightarrow> string option" where
  "re_search_phone [] = None"
| "re_search_phone (c # cs) =
     (case phone_match (c # cs) of
        Some m \<Rightarrow> Some m
      | None \<Rightarrow> re_search_phone cs)"

text \<open>
  A field block of the detail page, as the browser answers for it: \<open>element_text\<close> is
  \<open>td_element.text\<close>, and \<open>mailto_link\<close> is
  \<open>td_element.find_element(By.CSS_SELECTOR, "a[href^='mailto:']").get_attribute("href")\<close>,
  either of which the browser may answer with an exception.
\<close>

record td_element =
  element_text :: "exn + string"
  mailto_link :: "exn + string"

definition extract_contact_info :: "td_element \<Rightarrow> exn + (string \<times> string \<times> string)" where
  "extract_contact_info td =
     (case element_text td of
        Inl e \<Rightarrow> Inl e
      | Inr t \<Rightarrow>
          (let full_text = strip t;
               lines = [strip line. line \<leftarrow> split_on CHR 0x0A full_text, strip line \<noteq> []];
               name = (case lines of [] \<Rightarrow> ''N/A'' | l # _ \<Rightarrow> l);
               phone = (case re_search_phone full_text of None \<Rightarrow> ''N/A'' | Some m \<Rightarrow> m);
               email = (case mailto_link td of
                          Inl e \<Rightarrow> ''N/A''
                        | Inr href \<Rightarrow> remove_all ''mailto:'' href)
           in Inr (name, phone, email)))"


section \<open>Configuration, datasets and records\<close>

record output_columns =
  name_column :: string
  job_title_column :: string
  email_column :: string
  phone_column :: string

text \<open>\<open>contact_data_xpaths\<close> is a dictionary iterated in insertion order: a list of pairs.\<close>

record config =
  url :: string
  search_bar_id :: string
  search_results_link_selector :: string
  detail_page_name_selector :: string
  contact_data_xpaths :: "(string \<times> string) list"
  input_column :: string
  output_columns :: output_columns

definition WEBSITE_CONFIG :: config where
  "WEBSITE_CONFIG =
     \<lparr>url = ''https://www.cde.ca.gov/SchoolDirectory/'',
      search_bar_id = ''AllSearchField'',
      search_results_link_selector = ''table.table-bordered tbody tr td a'',
      detail_page_name_selector = ''h1.page-title'',
      contact_data_xpaths =
        [(''Superintendent'',
          ''//th[@class='details-field-label' and contains(text(), 'Superintendent')]/following-sibling::td''),
         (''Chief Business Official'',
          ''//th[@class='details-field-label' and contains(text(), 'Chief Business Official')]/following-sibling::td'')],
      input_column = ''District Name'',
      output_columns =
        \<lparr>name_column = ''Contact Name'', job_title_column = ''Contact Job Title'',
         email_column = ''Contact Email'', phone_column = ''Contact Phone Number''\<rparr>\<rparr>"

text \<open>
  A data frame: its column names and its rows, a row giving the cell under each column
  name (\<open>None\<close> is the missing value NaN). Cells are text.
\<close>

type_synonym row = "string \<Rightarrow> string option"

record dataframe =
  columns :: "string list"
  rows :: "row list"

definition column :: "dataframe \<Rightarrow> string \<Rightarrow> string option list" where
  "column df c = map (\<lambda>r. r c) (rows df)"

definition dropna :: "'a option list \<Rightarrow> 'a list" where
  "dropna cells = [x. Some x \<leftarrow> cells]"

text \<open>\<open>Series.unique()\<close>: the distinct values in order of first appearance.\<close>

primrec unique_from :: "'a list \<Rightarrow> 'a list \<Rightarrow> 'a list" where
  "unique_from seen [] = []"
| "unique_from seen (x # xs) =
     (if x \<in> set seen then unique_from seen xs else x # unique_from (x # seen) xs)"

definition unique :: "'a list \<Rightarrow> 'a list" where
  "unique xs = unique_from [] xs"

text \<open>
  One scraped record: the dictionary with the input column and the four output columns
  as keys.
\<close>

record contact_record =
  source_term :: string
  contact_name :: string
  job_title :: string
  email :: string
  phone :: string

text \<open>
  \<open>pd.merge(df, scraped_df, on=input_column, how='left')\<close>, row by row: the rows of the
  left frame in their order, each once per record with the same key, in the order of
  the records, or once with the output columns missing when no record has its key.
\<close>

definition matches_of :: "string \<Rightarrow> contact_record list \<Rightarrow> row \<Rightarrow> contact_record list" where
  "matches_of key recs r = [c \<leftarrow> recs. r key = Some (source_term c)]"

definition merge_row ::
  "string \<Rightarrow> contact_record list \<Rightarrow> row \<Rightarrow> (row \<times> contact_record option) list" where
  "merge_row key recs r =
     (case matches_of key recs r of
        [] \<Rightarrow> [(r, None)]
      | ms \<Rightarrow> map (\<lambda>c. (r, Some c)) ms)"

definition merge_left ::
  "string \<Rightarrow> row list \<Rightarrow> contact_record list \<Rightarrow> (row \<times> contact_record option) list" where
  "merge_left key left_rows recs = concat (map (merge_row key recs) left_rows)"


section \<open>The browser session\<close>

text \<open>
  The browser is outside the program. A \<open>visit\<close> holds what it answers during the
  iteration for one term: for each call the program makes, the value returned or the
  exception raised. \<open>send_keys\<close> stands for the four \<open>send_keys\<close> calls on the search
  field, \<open>page_name\<close> for finding the title element and reading its text, and
  \<open>find_field\<close> for \<open>driver.find_element(By.XPATH, xpath)\<close>. Reading the text of a result
  link is taken to succeed; \<open>driver.quit()\<close> and writing \<open>skipped_items.txt\<close> are taken
  not to raise; the key column holds text.
\<close>

record link =
  link_text :: string
  is_displayed :: bool
  click :: "exn option"

record visit =
  get_url :: "exn option"
  wait_search_bar :: "exn option"
  send_keys :: "exn option"
  page_name :: "exn + string"
  wait_result_links :: "exn + link list"
  find_field :: "string \<Rightarrow> exn + td_element"

text \<open>The calls that navigate, in the order the program issues them.\<close>

datatype driver_call = Get string | Submit string | Click string | Quit

record state =
  processed_count :: nat
  skipped_items :: "string list"
  scraped_records :: "contact_record list"
  driver_calls :: "driver_call list"

definition initial :: state where
  "initial = \<lparr>processed_count = 0, skipped_items = [], scraped_records = [], driver_calls = []\<rparr>"

definition call :: "driver_call \<Rightarrow> state \<Rightarrow> state" where
  "call c s = s\<lparr>driver_calls := driver_calls s @ [c]\<rparr>"

text \<open>The entry \<open>f"{original_term} (reason)"\<close> and its \<open>skipped_items.append\<close>.\<close>

definition skipped_entry :: "string \<Rightarrow> string \<Rightarrow> string" where
  "skipped_entry original_term reason = original_term @ '' ('' @ reason @ '')''"

definition skip :: "string \<Rightarrow> string \<Rightarrow> state \<Rightarrow> state" where
  "skip original_term reason s =
     s\<lparr>skipped_items := skipped_items s @ [skipped_entry original_term reason]\<rparr>"

text \<open>How an iteration of the loop ends: normally (also by \<open>continue\<close>), by \<open>break\<close>, or by
  an exception that leaves the loop.\<close>

datatype signal = Normal | Break | Raise exn


section \<open>Matching a result link\<close>

text \<open>The loop over \<open>result_links\<close> in \<open>run_scraper_with_config\<close>.\<close>

fun find_link :: "string \<Rightarrow> link list \<Rightarrow> link option" where
  "find_link search_term [] = None"
| "find_link search_term (l # ls) =
     (if contains (lower (link_text l)) (lower search_term) then Some l
      else find_link search_term ls)"

text \<open>The loop over \<open>result_links\<close> in \<open>search_districts_and_click_link_on_cde\<close>.\<close>

fun find_link_cde :: "string \<Rightarrow> link list \<Rightarrow> link option" where
  "find_link_cde district_name [] = None"
| "find_link_cde district_name (l # ls) =
     (if is_displayed l \<and> contains (lower (link_text l)) (lower district_name) then Some l
      else find_link_cde district_name ls)"


section \<open>One term\<close>

text \<open>The loop over the roles: every exception of a role is caught inside the loop.\<close>

fun scrape_roles ::
  "visit \<Rightarrow> string \<Rightarrow> (string \<times> string) list \<Rightarrow> bool \<times> state \<Rightarrow> bool \<times> state" where
  "scrape_roles v original_term [] (found_data, s) = (found_data, s)"
| "scrape_roles v original_term ((title, xpath) # rest) (found_data, s) =
     (case find_field v xpath of
        Inl e \<Rightarrow> scrape_roles v original_term rest (found_data, s)
      | Inr td \<Rightarrow>
          (case extract_contact_info td of
             Inl e \<Rightarrow> scrape_roles v original_term rest (found_data, s)
           | Inr (name, phone_no, mail) \<Rightarrow>
               if name \<noteq> ''N/A''
               then scrape_roles v original_term rest
                      (True, s\<lparr>scraped_records := scraped_records s @
                                 [\<lparr>source_term = original_term, contact_name = name,
                                   job_title = title, email = mail, phone = phone_no\<rparr>]\<rparr>)
               else scrape_roles v original_term rest (found_data, s)))"

definition extract_page :: "config \<Rightarrow> visit \<Rightarrow> string \<Rightarrow> state \<Rightarrow> signal \<times> state" where
  "extract_page cfg v original_term s =
     (let (found_data, s') = scrape_roles v original_term (contact_data_xpaths cfg) (False, s)
      in if found_data then (Normal, s'\<lparr>processed_count := processed_count s' + 1\<rparr>)
         else (Normal, skip original_term ''No contact data found'' s'))"

definition landed_on_detail_page :: "visit \<Rightarrow> string \<Rightarrow> exn + bool" where
  "landed_on_detail_page v search_term =
     (case page_name v of
        Inl e \<Rightarrow> if e = NoSuchElementException then Inr False else Inl e
      | Inr title \<Rightarrow> Inr (contains (lower title) (lower search_term)))"

definition caught_as_no_results :: "exn \<Rightarrow> bool" where
  "caught_as_no_results e \<longleftrightarrow> e = TimeoutException \<or> e = NoSuchElementException"

definition open_result :: "config \<Rightarrow> visit \<Rightarrow> string \<Rightarrow> string \<Rightarrow> state \<Rightarrow> signal \<times> state" where
  "open_result cfg v original_term search_term s =
     (case wait_result_links v of
        Inl e \<Rightarrow>
          if caught_as_no_results e then (Normal, skip original_term ''No search results'' s)
          else (Raise e, s)
      | Inr result_links \<Rightarrow>
          (case find_link search_term result_links of
             None \<Rightarrow> (Normal, skip original_term ''No matching link'' s)
           | Some l \<Rightarrow>
               (case click l of
                  Some e \<Rightarrow>
                    if caught_as_no_results e
                    then (Normal, skip original_term ''No search results'' (call (Click (link_text l)) s))
                    else (Raise e, call (Click (link_text l)) s)
                | None \<Rightarrow> extract_page cfg v original_term (call (Click (link_text l)) s))))"

definition process_term :: "config \<Rightarrow> visit \<Rightarrow> string \<Rightarrow> state \<Rightarrow> signal \<times> state" where
  "process_term cfg v original_term s0 =
     (let s1 = call (Get (url cfg)) s0 in
      case get_url v of Some e \<Rightarrow> (Raise e, s1) | None \<Rightarrow>
      (case wait_search_bar v of
         Some e \<Rightarrow> if e = TimeoutException then (Break, s1) else (Raise e, s1)
       | None \<Rightarrow>
          (let search_term = clean_search_term original_term;
               s2 = call (Submit search_term) s1 in
           case send_keys v of Some e \<Rightarrow> (Raise e, s2) | None \<Rightarrow>
           (case landed_on_detail_page v search_term of
              Inl e \<Rightarrow> (Raise e, s2)
            | Inr landed \<Rightarrow>
                if landed then extract_page cfg v original_term s2
                else open_result cfg v original_term search_term s2))))"


section \<open>The batch\<close>

fun scrape_loop :: "config \<Rightarrow> (string \<Rightarrow> visit) \<Rightarrow> string list \<Rightarrow> state \<Rightarrow> signal \<times> state" where
  "scrape_loop cfg site [] s = (Normal, s)"
| "scrape_loop cfg site (original_term # rest) s =
     (case process_term cfg (site original_term) original_term s of
        (Normal, s') \<Rightarrow> scrape_loop cfg site rest s'
      | (ending, s') \<Rightarrow> (ending, s'))"

text \<open>
  What surrounds the program: the input file as \<open>pd.read_excel\<close> returns it, whether the
  browser starts, the site (the visit for each term; the terms of a run are distinct,
  so each is visited once), and whether \<open>to_excel\<close> succeeds.
\<close>

record env =
  read_excel :: "exn + dataframe"
  firefox :: "exn option"
  site :: "string \<Rightarrow> visit"
  to_excel :: "exn option"

text \<open>
  What a run leaves behind: the terms it identified, how the loop ended (\<open>None\<close> when the
  run returned before the loop), the final counters and lists, the frame passed to
  \<open>merged_df.to_excel(input_file)\<close> if that call was made, the exception the call raised
  if any, and the text written to \<open>skipped_items.txt\<close> if the file was written.
\<close>

record result =
  search_terms :: "string list"
  ending :: "signal option"
  final :: state
  to_excel_call :: "(row \<times> contact_record option) list option"
  to_excel_error :: "exn option"
  skipped_items_txt :: "string option"

definition early_return :: "string list \<Rightarrow> result" where
  "early_return ts =
     \<lparr>search_terms = ts, ending = None, final = initial, to_excel_call = None,
      to_excel_error = None, skipped_items_txt = None\<rparr>"

definition write_skipped :: "string list \<Rightarrow> string option" where
  "write_skipped items =
     (if items = [] then None else Some (concat (map (\<lambda>skipped. skipped @ [CHR 0x0A]) items)))"

definition run_scraper_with_config :: "config \<Rightarrow> env \<Rightarrow> result" where
  "run_scraper_with_config cfg world =
     (case read_excel world of
        Inl e \<Rightarrow> early_return []
      | Inr df \<Rightarrow>
          if input_column cfg \<notin> set (columns df) then early_return []
          else
            (let terms = unique (dropna (column df (input_column cfg))) in
             if terms = [] then early_return []
             else
               (case firefox world of
                  Some e \<Rightarrow> early_return terms
                | None \<Rightarrow>
                    (let (how, s) = scrape_loop cfg (site world) terms initial;
                         s = call Quit s;
                         saving = scraped_records s \<noteq> []
                     in \<lparr>search_terms = terms, ending = Some how, final = s,
                         to_excel_call =
                           (if saving
                            then Some (merge_left (input_column cfg) (rows df) (scraped_records s))
                            else None),
                         to_excel_error = (if saving then to_excel world else None),
                         skipped_items_txt = write_skipped (skipped_items s)\<rparr>))))"



section \<open>Notions used to state the properties\<close>

text \<open>A string without leading or trailing whitespace, and one with a character that is
  not whitespace.\<close>

definition trimmed :: "string \<Rightarrow> bool" where
  "trimmed s \<longleftrightarrow> s = [] \<or> (\<not> isspace (hd s) \<and> \<not> isspace (last s))"

definition has_text :: "string \<Rightarrow> bool" where
  "has_text s \<longleftrightarrow> (\<exists>c \<in> set s. \<not> isspace c)"

text \<open>
  The outcome of a term. The program keeps no list of outcomes: it counts the processed
  terms in \<open>processed_count\<close> and appends one entry to \<open>skipped_items\<close> per skipped term.
  \<open>recorded outs s\<close> says that the counter and the list of \<open>s\<close> are those of the outcomes
  \<open>outs\<close>, in order.
\<close>

datatype status = Processed | Skipped string

definition reasons :: "string set" where
  "reasons = {''No search results'', ''No matching link'', ''No contact data found''}"

fun entries :: "(string \<times> status) list \<Rightarrow> string list" where
  "entries [] = []"
| "entries ((t, Processed) # outs) = entries outs"
| "entries ((t, Skipped reason) # outs) = skipped_entry t reason # entries outs"

definition recorded :: "(string \<times> status) list \<Rightarrow> state \<Rightarrow> bool" where
  "recorded outs s \<longleftrightarrow>
     processed_count s = length [out \<leftarrow> outs. snd out = Processed] \<and>
     skipped_items s = entries outs"

text \<open>
  What one iteration may do to the counters and lists: it appends records, all for its
  own term and none with the name \<open>N/A\<close>, and it either counts the term as
  processed (having appended a record), or appends one entry for it to \<open>skipped_items\<close>
  (having appended no record), or, when it leaves the loop, does neither.
\<close>

definition effect :: "string \<Rightarrow> state \<Rightarrow> signal \<times> state \<Rightarrow> bool" where
  "effect t s res \<longleftrightarrow>
     (case res of (how, s') \<Rightarrow>
        \<exists>new. scraped_records s' = scraped_records s @ new \<and>
          (\<forall>r \<in> set new. contact_name r \<noteq> ''N/A'' \<and> source_term r = t) \<and>
          (if how = Normal
           then (new \<noteq> [] \<and> processed_count s' = processed_count s + 1 \<and>
                 skipped_items s' = skipped_items s) \<or>
                (new = [] \<and> processed_count s' = processed_count s \<and>
                 (\<exists>reason \<in> reasons. skipped_items s' = skipped_items s @ [skipped_entry t reason]))
           else new = [] \<and> processed_count s' = processed_count s \<and>
                skipped_items s' = skipped_items s))"

text \<open>The lines of a text file in which every line ends with a newline.\<close>

definition file_lines :: "string \<Rightarrow> string list" where
  "file_lines txt = butlast (split_on CHR 0x0A txt)"


text \<open>
  The strings the pattern \<open>\(?\d{3}\)?[-.\s]?\d{3}[-.\s]?\d{4}\<close> matches, written as the
  pattern reads: an optional item is absent or one character of its class, \<open>\d{n}\<close> is \<open>n\<close>
  digits.
\<close>

definition all_digits :: "nat \<Rightarrow> string \<Rightarrow> bool" where
  "all_digits n b \<longleftrightarrow> length b = n \<and> (\<forall>c \<in> set b. isdigit c)"

definition at_most_one :: "(char \<Rightarrow> bool) \<Rightarrow> string \<Rightarrow> bool" where
  "at_most_one p a \<longleftrightarrow> a = [] \<or> (\<exists>x. a = [x] \<and> p x)"

definition phone_shaped :: "string \<Rightarrow> bool" where
  "phone_shaped m \<longleftrightarrow>
     (\<exists>a b c d e f g. m = a @ b @ c @ d @ e @ f @ g \<and>
        at_most_one (\<lambda>x. x = CHR ''('') a \<and> all_digits 3 b \<and>
        at_most_one (\<lambda>x. x = CHR '')'') c \<and> at_most_one is_sep d \<and> all_digits 3 e \<and>
        at_most_one is_sep f \<and> all_digits 4 g)"


section \<open>Example runs\<close>

text \<open>
  A site for the examples. A term is found through the first result link; its detail
  page has a Superintendent block with a name and nothing else, and no block for the
  other role.
\<close>

definition name_only :: td_element where
  "name_only = \<lparr>element_text = Inr ''Jane Doe'', mailto_link = Inl NoSuchElementException\<rparr>"

definition found_visit :: visit where
  "found_visit =
     \<lparr>get_url = None, wait_search_bar = None, send_keys = None,
      page_name = Inl NoSuchElementException,
      wait_result_links =
        Inr [\<lparr>link_text = ''Alameda Unified'', is_displayed = True, click = None\<rparr>,
             \<lparr>link_text = ''East Alameda'', is_displayed = True, click = None\<rparr>],
      find_field =
        (\<lambda>xpath. if xpath = snd (hd (contact_data_xpaths WEBSITE_CONFIG)) then Inr name_only
                  else Inl NoSuchElementException)\<rparr>"

text \<open>The results of a term do not render in time.\<close>

definition timeout_visit :: visit where
  "timeout_visit = found_visit\<lparr>wait_result_links := Inl TimeoutException\<rparr>"

text \<open>The session is lost: loading the entry page raises.\<close>

definition lost_visit :: visit where
  "lost_visit = found_visit\<lparr>get_url := Some OtherException\<rparr>"

text \<open>The search field does not appear in time.\<close>

definition no_search_bar_visit :: visit where
  "no_search_bar_visit = found_visit\<lparr>wait_search_bar := Some TimeoutException\<rparr>"

text \<open>An input file with the two columns of the sample data, one row per name.\<close>

definition sample_row :: "string \<Rightarrow> row" where
  "sample_row district =
     (\<lambda>c. if c = ''District Name'' then Some district
          else if c = ''Other Data'' then Some ''Info'' else None)"

definition sample_world :: "string list \<Rightarrow> (string \<Rightarrow> visit) \<Rightarrow> env" where
  "sample_world districts web =
     \<lparr>read_excel = Inr \<lparr>columns = [''District Name'', ''Other Data''],
                         rows = map sample_row districts\<rparr>,
      firefox = None, site = web, to_excel = None\<rparr>"


section \<open>Whitespace and the suffix rules\<close>

lemma isspace_newline: "isspace (CHR 0x0A)"
  by (simp add: isspace_def)

lemma isspace_blank: "isspace (CHR '' '')"
  by (simp add: isspace_def)

lemma dropWhile_last:
  "dropWhile P xs \<noteq> [] \<Longrightarrow> last (dropWhile P xs) = last xs"
  by (induction xs) (auto split: if_splits)

lemma dropWhile_keeps_unless_all:
  "xs \<noteq> [] \<Longrightarrow> \<not> P (last xs) \<Longrightarrow> dropWhile P xs \<noteq> []"
  by (induction xs) (auto split: if_splits)

lemma dropWhile_id: "xs = [] \<or> \<not> P (hd xs) \<Longrightarrow> dropWhile P xs = xs"
  by (cases xs) auto

lemma trimmed_strip: "trimmed (strip s)"
proof (cases "strip s = []")
  case True
  then show ?thesis by (simp add: trimmed_def)
next
  case False
  define a where "a = dropWhile isspace s"
  define b where "b = dropWhile isspace (rev a)"
  have s: "strip s = rev b" by (simp add: strip_def a_def b_def)
  with False have b: "b \<noteq> []" by simp
  then have a: "a \<noteq> []" by (auto simp: b_def)
  have "\<not> isspace (hd b)" using b unfolding b_def by (rule hd_dropWhile)
  then have l: "\<not> isspace (last (strip s))" using b by (simp add: s last_rev)
  have "last b = last (rev a)" using b unfolding b_def by (rule dropWhile_last)
  then have "hd (strip s) = hd a" using a b by (simp add: s hd_rev last_rev)
  moreover have "\<not> isspace (hd a)" using a unfolding a_def by (rule hd_dropWhile)
  ultimately show ?thesis using l by (simp add: trimmed_def)
qed

lemma strip_trimmed: "trimmed s \<Longrightarrow> strip s = s"
proof (cases "s = []")
  case True
  then show ?thesis by (simp add: strip_def)
next
  case False
  assume "trimmed s"
  with False have h: "\<not> isspace (hd s)" and l: "\<not> isspace (last s)"
    by (simp_all add: trimmed_def)
  have 1: "dropWhile isspace s = s" using h by (simp add: dropWhile_id)
  have "\<not> isspace (hd (rev s))" using l False by (simp add: hd_rev)
  then have "dropWhile isspace (rev s) = rev s" by (simp add: dropWhile_id)
  with 1 show ?thesis by (simp add: strip_def)
qed

lemma filter_dropWhile_not: "filter (\<lambda>c. \<not> P c) (dropWhile P xs) = filter (\<lambda>c. \<not> P c) xs"
  by (induction xs) auto

lemma filter_strip: "filter (\<lambda>c. \<not> isspace c) (strip s) = filter (\<lambda>c. \<not> isspace c) s"
proof -
  have "filter (\<lambda>c. \<not> isspace c) (strip s)
        = rev (filter (\<lambda>c. \<not> isspace c) (dropWhile isspace (rev (dropWhile isspace s))))"
    by (simp add: strip_def rev_filter)
  also have "\<dots> = rev (filter (\<lambda>c. \<not> isspace c) (rev (dropWhile isspace s)))"
    by (simp only: filter_dropWhile_not)
  also have "\<dots> = filter (\<lambda>c. \<not> isspace c) (dropWhile isspace s)"
    by (simp add: rev_filter)
  finally show ?thesis by (simp only: filter_dropWhile_not)
qed

lemma has_text_filter: "has_text s \<longleftrightarrow> filter (\<lambda>c. \<not> isspace c) s \<noteq> []"
  by (auto simp: has_text_def filter_empty_conv)

lemma has_text_strip: "has_text (strip s) = has_text s"
  by (simp add: has_text_filter filter_strip)

lemma has_text_nonempty: "has_text s \<Longrightarrow> s \<noteq> []"
  by (auto simp: has_text_def)

lemma trimmed_has_text: "trimmed s \<Longrightarrow> s \<noteq> [] \<Longrightarrow> has_text s"
  by (cases s) (auto simp: trimmed_def has_text_def)

lemma filter_re_sub_spaces:
  "filter (\<lambda>c. \<not> isspace c) (re_sub_spaces s) = filter (\<lambda>c. \<not> isspace c) s"
  by (induction s rule: re_sub_spaces.induct) (simp_all add: isspace_blank filter_dropWhile_not)

lemma has_text_re_sub_spaces: "has_text (re_sub_spaces s) = has_text s"
  by (simp add: has_text_filter filter_re_sub_spaces)

lemma end_match_keeps_start:
  "end_match pat u = Some r \<Longrightarrow> u \<noteq> [] \<Longrightarrow> \<not> isspace (last u) \<Longrightarrow> r \<noteq> [] \<and> last r = last u"
proof (induction pat arbitrary: u)
  case Nil
  then show ?case by simp
next
  case (Cons w ws)
  from Cons.prems(1) obtain c r' where d: "drop (length w) u = c # r'" and c: "isspace c"
    and m: "end_match ws (dropWhile isspace r') = Some r"
    by (auto split: if_splits list.splits)
  have lu: "last (c # r') = last u" using d Cons.prems(2) by (metis last_drop list.distinct(1) drop_eq_Nil not_le)
  with c Cons.prems(3) have r': "r' \<noteq> []" by auto
  with lu have lr: "last r' = last u" by simp
  have dn: "dropWhile isspace r' \<noteq> []"
    using r' Cons.prems(3) lr by (intro dropWhile_keeps_unless_all) simp_all
  then have "last (dropWhile isspace r') = last u" using lr by (simp add: dropWhile_last)
  with Cons.IH[OF m dn] Cons.prems(3) show ?case by simp
qed

lemma re_sub_trailing_has_text:
  assumes "trimmed s" "s \<noteq> []"
  shows "has_text (re_sub_trailing ws s)"
proof -
  from assms have h: "\<not> isspace (hd s)" and l: "\<not> isspace (last s)" by (simp_all add: trimmed_def)
  have nl: "hd (rev s) \<noteq> CHR 0x0A" using l assms(2) isspace_newline by (auto simp: hd_rev)
  show ?thesis
  proof (cases "end_match (map rev (rev ws)) (rev s)")
    case None
    then have "re_sub_trailing ws s = s" using nl
      by (cases "rev s") (auto simp: re_sub_trailing_def)
    then show ?thesis using assms by (simp add: trimmed_has_text)
  next
    case (Some r)
    have "r \<noteq> [] \<and> last r = last (rev s)"
      using Some assms(2) h by (intro end_match_keeps_start) (auto simp: last_rev)
    then have "r \<noteq> []" "\<not> isspace (last r)" using h assms(2) by (auto simp: last_rev)
    then have "has_text (rev r)" unfolding has_text_def by (metis last_in_set set_rev)
    then show ?thesis using Some by (simp add: re_sub_trailing_def)
  qed
qed

lemma clean_search_term_has_text:
  assumes "has_text x"
  shows "has_text (clean_search_term x)"
proof -
  define a where "a = strip x"
  define b where "b = strip (re_sub_trailing [''school'', ''district''] a)"
  define c where "c = strip (re_sub_trailing [''district''] b)"
  have cl: "clean_search_term x = strip (re_sub_spaces c)"
    by (simp add: clean_search_term_def a_def b_def c_def)
  have "has_text a" using assms by (simp add: a_def has_text_strip)
  then have "has_text b" unfolding b_def a_def
    by (simp add: has_text_strip re_sub_trailing_has_text trimmed_strip has_text_nonempty)
  then have "has_text c" unfolding c_def b_def
    by (simp add: has_text_strip re_sub_trailing_has_text trimmed_strip has_text_nonempty)
  then show ?thesis by (simp add: cl has_text_strip has_text_re_sub_spaces)
qed


lemma re_sub_spaces_hd:
  "d = [] \<or> \<not> isspace (hd d) \<Longrightarrow> re_sub_spaces d = [] \<or> \<not> isspace (hd (re_sub_spaces d))"
  by (cases d) auto

lemma re_sub_spaces_idem: "re_sub_spaces (re_sub_spaces s) = re_sub_spaces s"
proof (induction s rule: re_sub_spaces.induct)
  case 1
  then show ?case by simp
next
  case (2 c cs)
  show ?case
  proof (cases "isspace c")
    case True
    define d where "d = dropWhile isspace cs"
    have "d = [] \<or> \<not> isspace (hd d)" unfolding d_def using hd_dropWhile by blast
    then have "dropWhile isspace (re_sub_spaces d) = re_sub_spaces d"
      by (intro dropWhile_id re_sub_spaces_hd)
    then show ?thesis using True 2 by (simp add: isspace_blank d_def)
  next
    case False
    then show ?thesis using 2 by simp
  qed
qed

lemma re_sub_spaces_last:
  "s \<noteq> [] \<Longrightarrow> \<not> isspace (last s) \<Longrightarrow> re_sub_spaces s \<noteq> [] \<and> last (re_sub_spaces s) = last s"
proof (induction s rule: re_sub_spaces.induct)
  case 1
  then show ?case by simp
next
  case (2 c cs)
  show ?case
  proof (cases "isspace c")
    case True
    with 2(4) have cs: "cs \<noteq> []" "\<not> isspace (last cs)" by (auto split: if_splits)
    then have dn: "dropWhile isspace cs \<noteq> []" by (intro dropWhile_keeps_unless_all)
    then have dl: "last (dropWhile isspace cs) = last cs" by (rule dropWhile_last)
    from 2(1)[OF True dn] dl cs
    show ?thesis using True cs by simp
  next
    case False
    show ?thesis
    proof (cases "cs = []")
      case True
      then show ?thesis using False by simp
    next
      case ne: False
      with 2(4) have "\<not> isspace (last cs)" by simp
      from 2(2)[OF False ne this] show ?thesis using False ne by simp
    qed
  qed
qed

lemma trimmed_re_sub_spaces: "trimmed s \<Longrightarrow> trimmed (re_sub_spaces s)"
proof (cases "s = []")
  case True
  then show ?thesis by (simp add: trimmed_def)
next
  case False
  assume "trimmed s"
  with False have h: "\<not> isspace (hd s)" and l: "\<not> isspace (last s)" by (simp_all add: trimmed_def)
  from re_sub_spaces_last[OF False l] re_sub_spaces_hd[of s] h l
  show ?thesis by (auto simp: trimmed_def)
qed

lemma lower_district: "lower ''tcirtsid'' = ''tcirtsid''"
  by code_simp

lemma end_match_ConsD:
  "end_match (w # ws) u = Some r \<Longrightarrow>
     lower (take (length w) u) = lower w \<and>
     (\<exists>c r'. drop (length w) u = c # r' \<and> isspace c \<and>
        end_match ws (dropWhile isspace r') = Some r)"
  by (auto split: if_splits list.splits)

lemma end_match_district:
  assumes "end_match (''tcirtsid'' # ws) (rev y) = Some r"
  shows "ends_with_district y"
proof -
  have len8: "length ''tcirtsid'' = 8" by simp
  from end_match_ConsD[OF assms] have t: "lower (take 8 (rev y)) = ''tcirtsid''"
    by (simp only: len8 lower_district)
  from end_match_ConsD[OF assms] obtain c r' where d: "drop 8 (rev y) = c # r'" and c: "isspace c"
    unfolding len8 by blast
  from d have len: "8 < length y"
    by (metis drop_eq_Nil length_rev list.distinct(1) not_le)
  have "c = rev y ! 8" using d by (metis Cons_nth_drop_Suc drop_eq_Nil length_rev len list.inject not_le)
  also have "\<dots> = y ! (length y - 9)" using len by (simp add: rev_nth)
  finally have sp: "isspace (y ! (length y - 9))" using c by simp
  have "take 8 (rev y) = rev (drop (length y - 8) y)" by (simp add: take_rev)
  with t have "rev (lower (drop (length y - 8) y)) = ''tcirtsid''"
    by (simp add: lower_def rev_map)
  then have "lower (drop (length y - 8) y) = rev ''tcirtsid''" by (metis rev_rev_ident)
  then show ?thesis using len sp by (simp add: ends_with_district_def)
qed

lemma re_sub_trailing_no_match:
  assumes "trimmed y" "\<not> ends_with_district y" "map rev (rev ws) = ''tcirtsid'' # pat"
  shows "re_sub_trailing ws y = y"
proof -
  have none: "end_match (map rev (rev ws)) (rev y) = None"
    using assms(2,3) end_match_district by (cases "end_match (map rev (rev ws)) (rev y)") auto
  show ?thesis
  proof (cases "rev y")
    case Nil
    then show ?thesis using none by (simp add: re_sub_trailing_def)
  next
    case (Cons c r)
    then have "last y = c" "y \<noteq> []" by (auto simp: last_rev dest: arg_cong[where f = hd])
    with assms(1) isspace_newline have "c \<noteq> CHR 0x0A" by (auto simp: trimmed_def)
    then show ?thesis using none Cons by (simp add: re_sub_trailing_def)
  qed
qed

lemma clean_search_term_shape:
  "trimmed (clean_search_term x) \<and> re_sub_spaces (clean_search_term x) = clean_search_term x"
proof -
  define c where
    "c = strip (re_sub_trailing [''district''] (strip (re_sub_trailing [''school'', ''district''] (strip x))))"
  have cl: "clean_search_term x = strip (re_sub_spaces c)"
    by (simp add: clean_search_term_def c_def)
  have "trimmed c" unfolding c_def by (rule trimmed_strip)
  then have "trimmed (re_sub_spaces c)" by (rule trimmed_re_sub_spaces)
  then have "clean_search_term x = re_sub_spaces c" by (simp add: cl strip_trimmed)
  then show ?thesis using \<open>trimmed (re_sub_spaces c)\<close> by (simp add: re_sub_spaces_idem)
qed

lemma clean_fixed:
  assumes "trimmed y" "re_sub_spaces y = y" "\<not> ends_with_district y"
  shows "clean_search_term y = y"
proof -
  have 1: "re_sub_trailing [''school'', ''district''] y = y"
    using assms(1,3) by (rule re_sub_trailing_no_match) simp
  have 2: "re_sub_trailing [''district''] y = y"
    using assms(1,3) by (rule re_sub_trailing_no_match) simp
  show ?thesis using assms(1,2) by (simp add: clean_search_term_def strip_trimmed 1 2)
qed

lemma idem: "\<not> ends_with_district (clean_search_term x) \<Longrightarrow>
   clean_search_term (clean_search_term x) = clean_search_term x"
  using clean_search_term_shape[of x] by (simp add: clean_fixed)


lemma length_strip: "length (strip s) \<le> length s"
proof -
  have "length (strip s) \<le> length (dropWhile isspace s)"
    unfolding strip_def using length_dropWhile_le[of isspace "rev (dropWhile isspace s)"] by simp
  also have "\<dots> \<le> length s" by (rule length_dropWhile_le)
  finally show ?thesis .
qed

lemma length_re_sub_spaces: "length (re_sub_spaces s) \<le> length s"
proof (induction s rule: re_sub_spaces.induct)
  case 1
  then show ?case by simp
next
  case (2 c cs)
  have "length (dropWhile isspace cs) \<le> length cs" by (rule length_dropWhile_le)
  with 2 show ?case by (cases "isspace c") auto
qed

lemma end_match_length: "end_match pat u = Some r \<Longrightarrow> length r \<le> length u"
proof (induction pat arbitrary: u)
  case Nil
  then show ?case by simp
next
  case (Cons w ws)
  from end_match_ConsD[OF Cons.prems] obtain c r' where d: "drop (length w) u = c # r'"
    and m: "end_match ws (dropWhile isspace r') = Some r" by blast
  have "length r \<le> length (dropWhile isspace r')" using m by (rule Cons.IH)
  also have "\<dots> \<le> length r'" by (rule length_dropWhile_le)
  also have "\<dots> < length (drop (length w) u)" by (simp add: d)
  also have "\<dots> \<le> length u" by simp
  finally show ?case by simp
qed

lemma end_match_shorter: "end_match (w # ws) u = Some r \<Longrightarrow> length r < length u"
proof -
  assume a: "end_match (w # ws) u = Some r"
  from end_match_ConsD[OF a] obtain c r' where d: "drop (length w) u = c # r'"
    and m: "end_match ws (dropWhile isspace r') = Some r" by blast
  have "length r \<le> length (dropWhile isspace r')" using m by (rule end_match_length)
  also have "\<dots> \<le> length r'" by (rule length_dropWhile_le)
  also have "\<dots> < length (drop (length w) u)" by (simp add: d)
  also have "\<dots> \<le> length u" by simp
  finally show ?thesis .
qed

lemma re_sub_trailing_cases:
  assumes "trimmed y"
  shows "(end_match (map rev (rev ws)) (rev y) = None \<and> re_sub_trailing ws y = y) \<or>
         (\<exists>r. end_match (map rev (rev ws)) (rev y) = Some r \<and> re_sub_trailing ws y = rev r)"
proof (cases "end_match (map rev (rev ws)) (rev y)")
  case None
  show ?thesis
  proof (cases "rev y")
    case Nil
    then show ?thesis using None by (simp add: re_sub_trailing_def)
  next
    case (Cons c r)
    then have "last y = c" "y \<noteq> []" by (auto simp: last_rev dest: arg_cong[where f = hd])
    with assms isspace_newline have "c \<noteq> CHR 0x0A" by (auto simp: trimmed_def)
    then show ?thesis using None Cons by (simp add: re_sub_trailing_def)
  qed
next
  case (Some r)
  then show ?thesis by (simp add: re_sub_trailing_def)
qed

lemma district_matches:
  assumes "ends_with_district y"
  shows "\<exists>r. end_match [''tcirtsid''] (rev y) = Some r"
proof -
  from assms have len: "8 < length y" and low: "lower (drop (length y - 8) y) = ''district''"
    and sp: "isspace (y ! (length y - 9))" by (simp_all add: ends_with_district_def)
  have len8: "length ''tcirtsid'' = 8" by simp
  have "take 8 (rev y) = rev (drop (length y - 8) y)" by (simp add: take_rev)
  then have "lower (take 8 (rev y)) = rev (lower (drop (length y - 8) y))"
    by (simp add: lower_def rev_map)
  then have t: "lower (take 8 (rev y)) = lower ''tcirtsid''" by (simp add: low lower_district)
  have "drop 8 (rev y) = rev y ! 8 # drop 9 (rev y)"
    using len Cons_nth_drop_Suc[of 8 "rev y"] by simp
  moreover have "rev y ! 8 = y ! (length y - 9)" using len by (simp add: rev_nth)
  ultimately have d: "drop 8 (rev y) = y ! (length y - 9) # drop 9 (rev y)" by simp
  have "end_match [''tcirtsid''] (rev y) =
          (if lower (take (length ''tcirtsid'') (rev y)) = lower ''tcirtsid''
           then (case drop (length ''tcirtsid'') (rev y) of
                   [] \<Rightarrow> None
                 | c # r' \<Rightarrow> if isspace c then end_match [] (dropWhile isspace r') else None)
           else None)"
    by (rule end_match.simps)
  then show ?thesis unfolding len8 by (simp add: t d sp)
qed

lemma clean_shrinks:
  assumes "trimmed y" "ends_with_district y"
  shows "length (clean_search_term y) < length y"
proof -
  define b where "b = strip (re_sub_trailing [''school'', ''district''] y)"
  define c where "c = strip (re_sub_trailing [''district''] b)"
  have cl: "clean_search_term y = strip (re_sub_spaces c)"
    using assms(1) by (simp add: clean_search_term_def b_def c_def strip_trimmed)
  have le: "length (clean_search_term y) \<le> length c"
    unfolding cl using length_strip[of "re_sub_spaces c"] length_re_sub_spaces[of c] by simp
  have tb: "trimmed b" unfolding b_def by (rule trimmed_strip)
  have cb: "length c \<le> length b"
  proof -
    from re_sub_trailing_cases[OF tb, of "[''district'']"]
    have "length (re_sub_trailing [''district''] b) \<le> length b"
    proof
      assume "end_match (map rev (rev [''district''])) (rev b) = None \<and>
              re_sub_trailing [''district''] b = b"
      then show ?thesis by simp
    next
      assume "\<exists>r. end_match (map rev (rev [''district''])) (rev b) = Some r \<and>
                  re_sub_trailing [''district''] b = rev r"
      then obtain r where r: "end_match (map rev (rev [''district''])) (rev b) = Some r"
        and s: "re_sub_trailing [''district''] b = rev r" by blast
      from end_match_length[OF r] show ?thesis by (simp add: s)
    qed
    then show ?thesis unfolding c_def using length_strip[of "re_sub_trailing [''district''] b"] by simp
  qed
  from re_sub_trailing_cases[OF assms(1), of "[''school'', ''district'']"]
  have "length c < length y"
  proof
    assume "end_match (map rev (rev [''school'', ''district''])) (rev y) = None \<and>
            re_sub_trailing [''school'', ''district''] y = y"
    then have by': "b = y" using assms(1) by (simp add: b_def strip_trimmed)
    from district_matches[OF assms(2)] obtain r where r: "end_match [''tcirtsid''] (rev y) = Some r"
      by blast
    then have "re_sub_trailing [''district''] y = rev r" by (simp add: re_sub_trailing_def)
    moreover have "length r < length y" using end_match_shorter[OF r] by simp
    ultimately show ?thesis
      unfolding c_def by' using length_strip[of "rev r"] by simp
  next
    assume "\<exists>r. end_match (map rev (rev [''school'', ''district''])) (rev y) = Some r \<and>
                re_sub_trailing [''school'', ''district''] y = rev r"
    then obtain r where r: "end_match (''tcirtsid'' # [''loohcs'']) (rev y) = Some r"
      and s: "re_sub_trailing [''school'', ''district''] y = rev r" by auto
    have "length r < length y" using end_match_shorter[OF r] by simp
    then have "length b < length y" unfolding b_def s using length_strip[of "rev r"] by simp
    with cb show ?thesis by simp
  qed
  with le show ?thesis by simp
qed

lemma idem_iff: "clean_search_term (clean_search_term x) = clean_search_term x
   \<longleftrightarrow> \<not> ends_with_district (clean_search_term x)"
  using clean_search_term_shape[of x] clean_shrinks[of "clean_search_term x"] idem[of x]
  by auto


section \<open>The effect of one iteration\<close>

lemma scrape_roles_effect:
  "scrape_roles v t roles (f, s) = (f', s') \<Longrightarrow>
     \<exists>new. s' = s\<lparr>scraped_records := scraped_records s @ new\<rparr> \<and>
           (\<forall>r \<in> set new. contact_name r \<noteq> ''N/A'' \<and> source_term r = t) \<and>
           (f' \<longleftrightarrow> f \<or> new \<noteq> [])"
proof (induction roles arbitrary: f s)
  case Nil
  then show ?case by (intro exI[of _ "[]"]) simp
next
  case (Cons role roles)
  obtain title xpath where role: "role = (title, xpath)" by (cases role)
  show ?case
  proof (cases "find_field v xpath")
    case (Inl e)
    with Cons.prems role have "scrape_roles v t roles (f, s) = (f', s')" by simp
    then show ?thesis by (rule Cons.IH)
  next
    case (Inr td)
    show ?thesis
    proof (cases "extract_contact_info td")
      case (Inl e)
      with Cons.prems role Inr have "scrape_roles v t roles (f, s) = (f', s')" by simp
      then show ?thesis by (rule Cons.IH)
    next
      case inr: (Inr triple)
      obtain name phone_no mail where triple: "triple = (name, phone_no, mail)" by (cases triple)
      show ?thesis
      proof (cases "name = ''N/A''")
        case True
        with Cons.prems role Inr inr triple have "scrape_roles v t roles (f, s) = (f', s')" by simp
        then show ?thesis by (rule Cons.IH)
      next
        case False
        define rec where "rec = \<lparr>source_term = t, contact_name = name, job_title = title,
                                 email = mail, phone = phone_no\<rparr>"
        from Cons.prems role Inr inr triple False
        have "scrape_roles v t roles (True, s\<lparr>scraped_records := scraped_records s @ [rec]\<rparr>) = (f', s')"
          by (simp add: rec_def)
        from Cons.IH[OF this] obtain new where
          new: "s' = s\<lparr>scraped_records := scraped_records s @ [rec]\<rparr>\<lparr>scraped_records :=
                  scraped_records (s\<lparr>scraped_records := scraped_records s @ [rec]\<rparr>) @ new\<rparr>"
          "\<forall>r \<in> set new. contact_name r \<noteq> ''N/A'' \<and> source_term r = t" "f'" by auto
        show ?thesis
          using new False by (intro exI[of _ "rec # new"]) (simp add: rec_def)
      qed
    qed
  qed
qed

lemma effect_call: "effect t (call c s) res = effect t s res"
  by (simp add: effect_def call_def)

lemma effect_skip: "reason \<in> reasons \<Longrightarrow> effect t s (Normal, skip t reason s)"
  unfolding effect_def skip_def by auto

lemma effect_leave: "how \<noteq> Normal \<Longrightarrow> effect t s (how, s)"
  unfolding effect_def by simp

lemma reasons_simps:
  "''No search results'' \<in> reasons" "''No matching link'' \<in> reasons"
  "''No contact data found'' \<in> reasons"
  by (simp_all add: reasons_def)

lemma extract_page_effect: "effect t s (extract_page cfg v t s)"
proof -
  obtain f s' where r: "scrape_roles v t (contact_data_xpaths cfg) (False, s) = (f, s')"
    by (cases "scrape_roles v t (contact_data_xpaths cfg) (False, s)")
  from scrape_roles_effect[OF r] obtain new where
    new: "s' = s\<lparr>scraped_records := scraped_records s @ new\<rparr>"
         "\<forall>r \<in> set new. contact_name r \<noteq> ''N/A'' \<and> source_term r = t" "f \<longleftrightarrow> new \<noteq> []"
    by auto
  show ?thesis
  proof (cases f)
    case True
    then have "extract_page cfg v t s = (Normal, s'\<lparr>processed_count := processed_count s' + 1\<rparr>)"
      by (simp add: extract_page_def r)
    then show ?thesis using new True unfolding effect_def by simp
  next
    case False
    then have "extract_page cfg v t s = (Normal, skip t ''No contact data found'' s')"
      by (simp add: extract_page_def r)
    moreover have "s' = s" using new False by simp
    ultimately show ?thesis by (simp add: effect_skip reasons_simps)
  qed
qed

lemma open_result_effect: "effect t s (open_result cfg v t q s)"
proof (cases "wait_result_links v")
  case (Inl e)
  then show ?thesis
    by (simp add: open_result_def effect_skip reasons_simps effect_leave)
next
  case (Inr result_links)
  show ?thesis
  proof (cases "find_link q result_links")
    case None
    then show ?thesis using Inr by (simp add: open_result_def effect_skip reasons_simps)
  next
    case (Some l)
    note fl = this
    let ?s = "call (Click (link_text l)) s"
    show ?thesis
    proof (cases "click l")
      case None
      then have "open_result cfg v t q s = extract_page cfg v t ?s"
        using Inr fl by (simp add: open_result_def)
      then show ?thesis using extract_page_effect[of t ?s cfg v]
        by (simp add: effect_call)
    next
      case (Some e)
      show ?thesis
      proof (cases "caught_as_no_results e")
        case True
        then have "open_result cfg v t q s = (Normal, skip t ''No search results'' ?s)"
          using Inr fl Some by (simp add: open_result_def)
        then show ?thesis using effect_skip[of "''No search results''" t ?s]
          by (simp add: reasons_simps effect_call)
      next
        case False
        then have "open_result cfg v t q s = (Raise e, ?s)"
          using Inr fl Some by (simp add: open_result_def)
        then show ?thesis using effect_leave[of "Raise e" t ?s]
          by (simp add: effect_call)
      qed
    qed
  qed
qed


lemma process_term_effect: "effect t s (process_term cfg v t s)"
proof -
  let ?s1 = "call (Get (url cfg)) s"
  let ?s2 = "call (Submit (clean_search_term t)) ?s1"
  have leave1: "effect t s (how, ?s1)" if "how \<noteq> Normal" for how
    using effect_leave[OF that, of t ?s1] by (simp add: effect_call)
  have leave2: "effect t s (how, ?s2)" if "how \<noteq> Normal" for how
    using effect_leave[OF that, of t ?s2] by (simp add: effect_call)
  have page: "effect t s (extract_page cfg v t ?s2)"
    using extract_page_effect[of t ?s2 cfg v] by (simp add: effect_call)
  have res: "effect t s (open_result cfg v t q ?s2)" for q
    using open_result_effect[of t ?s2 cfg v q] by (simp add: effect_call)
  show ?thesis
  proof (cases "get_url v")
    case (Some e)
    then show ?thesis by (simp add: process_term_def Let_def leave1)
  next
    case None
    note g = this
    show ?thesis
    proof (cases "wait_search_bar v")
      case (Some e)
      then show ?thesis using g by (simp add: process_term_def Let_def leave1)
    next
      case None
      note w = this
      show ?thesis
      proof (cases "send_keys v")
        case (Some e)
        then show ?thesis using g w by (simp add: process_term_def Let_def leave2)
      next
        case None
        note k = this
        show ?thesis
        proof (cases "landed_on_detail_page v (clean_search_term t)")
          case (Inl e)
          then show ?thesis using g w k by (simp add: process_term_def Let_def leave2)
        next
          case (Inr landed)
          then show ?thesis using g w k
            by (simp add: process_term_def Let_def page res)
        qed
      qed
    qed
  qed
qed


section \<open>The effect of the loop\<close>

lemma entries_append: "entries (a @ b) = entries a @ entries b"
  by (induction a rule: entries.induct) simp_all

lemma recorded_step:
  assumes "recorded outs s" "effect t s (how, s')"
  shows "if how = Normal then \<exists>st. recorded (outs @ [(t, st)]) s' else recorded outs s'"
proof (cases "how = Normal")
  case False
  with assms show ?thesis by (simp add: effect_def recorded_def)
next
  case True
  with assms(2) obtain new where
    d: "(new \<noteq> [] \<and> processed_count s' = processed_count s + 1 \<and>
          skipped_items s' = skipped_items s) \<or>
        (new = [] \<and> processed_count s' = processed_count s \<and>
          (\<exists>reason \<in> reasons. skipped_items s' = skipped_items s @ [skipped_entry t reason]))"
    unfolding effect_def by auto
  from d have "\<exists>st. recorded (outs @ [(t, st)]) s'"
  proof
    assume "new \<noteq> [] \<and> processed_count s' = processed_count s + 1 \<and>
            skipped_items s' = skipped_items s"
    with assms(1) have "recorded (outs @ [(t, Processed)]) s'"
      by (simp add: recorded_def entries_append)
    then show ?thesis ..
  next
    assume "new = [] \<and> processed_count s' = processed_count s \<and>
            (\<exists>reason \<in> reasons. skipped_items s' = skipped_items s @ [skipped_entry t reason])"
    then obtain reason where "processed_count s' = processed_count s"
      "skipped_items s' = skipped_items s @ [skipped_entry t reason]" by auto
    with assms(1) have "recorded (outs @ [(t, Skipped reason)]) s'"
      by (simp add: recorded_def entries_append)
    then show ?thesis ..
  qed
  with True show ?thesis by simp
qed

lemma scrape_loop_Cons:
  "scrape_loop cfg web (t # ts) s =
     (if fst (process_term cfg (web t) t s) = Normal
      then scrape_loop cfg web ts (snd (process_term cfg (web t) t s))
      else process_term cfg (web t) t s)"
  by (cases "process_term cfg (web t) t s"; cases "fst (process_term cfg (web t) t s)") auto

declare scrape_loop.simps(2) [simp del]

lemma scrape_loop_outcomes:
  assumes "recorded outs0 s" "scrape_loop cfg web ts s = (how, s')"
  shows "\<exists>outs rest. recorded (outs0 @ outs) s' \<and> ts = map fst outs @ rest \<and>
           (how = Normal \<longleftrightarrow> rest = [])"
  using assms
proof (induction ts arbitrary: s outs0)
  case Nil
  then show ?case by (intro exI[of _ "[]"]) simp
next
  case (Cons t ts)
  obtain h1 s1 where p: "process_term cfg (web t) t s = (h1, s1)"
    by (cases "process_term cfg (web t) t s")
  have e: "effect t s (h1, s1)" using process_term_effect[of t s cfg "web t"] by (simp add: p)
  show ?case
  proof (cases "h1 = Normal")
    case True
    with recorded_step[OF Cons.prems(1) e] obtain st where r: "recorded (outs0 @ [(t, st)]) s1"
      by auto
    from Cons.prems(2) p True have "scrape_loop cfg web ts s1 = (how, s')"
      by (simp add: scrape_loop_Cons)
    from Cons.IH[OF r this] obtain outs rest where
      o: "recorded ((outs0 @ [(t, st)]) @ outs) s'" "ts = map fst outs @ rest"
         "how = Normal \<longleftrightarrow> rest = []" by blast
    show ?thesis using o
      by (intro exI[of _ "(t, st) # outs"] exI[of _ rest]) simp
  next
    case False
    with Cons.prems(2) p have eq: "how = h1" "s' = s1" by (simp_all add: scrape_loop_Cons)
    from recorded_step[OF Cons.prems(1) e] False have "recorded outs0 s1" by simp
    then show ?thesis using eq False
      by (intro exI[of _ "[]"] exI[of _ "t # ts"]) simp
  qed
qed

lemma scrape_loop_records:
  assumes "scrape_loop cfg web ts s = (how, s')"
  shows "\<exists>new. scraped_records s' = scraped_records s @ new \<and>
           (\<forall>r \<in> set new. contact_name r \<noteq> ''N/A'' \<and> source_term r \<in> set ts)"
  using assms
proof (induction ts arbitrary: s)
  case Nil
  then show ?case by simp
next
  case (Cons t ts)
  obtain h1 s1 where p: "process_term cfg (web t) t s = (h1, s1)"
    by (cases "process_term cfg (web t) t s")
  have "effect t s (h1, s1)" using process_term_effect[of t s cfg "web t"] by (simp add: p)
  then obtain new1 where n1: "scraped_records s1 = scraped_records s @ new1"
    "\<forall>r \<in> set new1. contact_name r \<noteq> ''N/A'' \<and> source_term r = t"
    unfolding effect_def by auto
  show ?case
  proof (cases "h1 = Normal")
    case True
    with Cons.prems p have "scrape_loop cfg web ts s1 = (how, s')"
      by (simp add: scrape_loop_Cons)
    from Cons.IH[OF this] obtain new where n: "scraped_records s' = scraped_records s1 @ new"
      "\<forall>r \<in> set new. contact_name r \<noteq> ''N/A'' \<and> source_term r \<in> set ts" by blast
    show ?thesis using n n1 by (intro exI[of _ "new1 @ new"]) auto
  next
    case False
    with Cons.prems p have "s' = s1" by (simp add: scrape_loop_Cons)
    then show ?thesis using n1 by (intro exI[of _ new1]) auto
  qed
qed

lemma scrape_loop_skipped:
  assumes "scrape_loop cfg web ts s = (how, s')"
  shows "\<exists>new. skipped_items s' = skipped_items s @ new \<and>
           (\<forall>l \<in> set new. \<exists>t \<in> set ts. \<exists>reason \<in> reasons. l = skipped_entry t reason)"
  using assms
proof (induction ts arbitrary: s)
  case Nil
  then show ?case by simp
next
  case (Cons t ts)
  obtain h1 s1 where p: "process_term cfg (web t) t s = (h1, s1)"
    by (cases "process_term cfg (web t) t s")
  have "effect t s (h1, s1)" using process_term_effect[of t s cfg "web t"] by (simp add: p)
  then have "skipped_items s1 = skipped_items s \<or>
     (\<exists>reason \<in> reasons. skipped_items s1 = skipped_items s @ [skipped_entry t reason])"
    unfolding effect_def by (auto split: if_splits)
  then obtain new1 where n1: "skipped_items s1 = skipped_items s @ new1"
    "\<forall>l \<in> set new1. \<exists>reason \<in> reasons. l = skipped_entry t reason"
    by (elim disjE bexE) (force+)
  show ?case
  proof (cases "h1 = Normal")
    case True
    with Cons.prems p have "scrape_loop cfg web ts s1 = (how, s')"
      by (simp add: scrape_loop_Cons)
    from Cons.IH[OF this] obtain new where n: "skipped_items s' = skipped_items s1 @ new"
      "\<forall>l \<in> set new. \<exists>t \<in> set ts. \<exists>reason \<in> reasons. l = skipped_entry t reason" by blast
    show ?thesis using n n1 by (intro exI[of _ "new1 @ new"]) auto
  next
    case False
    with Cons.prems p have "s' = s1" by (simp add: scrape_loop_Cons)
    then show ?thesis using n1 by (intro exI[of _ new1]) auto
  qed
qed

lemma scrape_loop_append:
  "scrape_loop cfg web (xs @ ys) s =
     (if fst (scrape_loop cfg web xs s) = Normal
      then scrape_loop cfg web ys (snd (scrape_loop cfg web xs s))
      else scrape_loop cfg web xs s)"
proof (induction xs arbitrary: s)
  case Nil
  then show ?case by simp
next
  case (Cons t xs)
  show ?case by (simp add: scrape_loop_Cons Cons.IH)
qed


section \<open>Term normalisation: the properties\<close>

text \<open>
  Claim C2, as amended. \<open>clean_search_term\<close> returns a non-empty string for every input
  that has a character other than whitespace, and applying it to its own result changes
  nothing exactly when that result does not again end in whitespace followed by
  \<open>district\<close> (in any letter case).
\<close>

theorem clean_search_term_fixed_point:
  "(has_text x \<longrightarrow> clean_search_term x \<noteq> []) \<and>
   (clean_search_term (clean_search_term x) = clean_search_term x
      \<longleftrightarrow> \<not> ends_with_district (clean_search_term x))"
  using clean_search_term_has_text[of x] has_text_nonempty idem_iff[of x] by blast

text \<open>
  The sample term of the specification has text, and its normal form \<open>Some Unified\<close> is a
  fixed point.
\<close>

theorem clean_search_term_fixed_point_witness:
  "has_text ''Some Unified School District'' \<and>
   clean_search_term ''Some Unified School District'' = ''Some Unified'' \<and>
   clean_search_term ''Some Unified School District'' \<noteq> [] \<and>
   clean_search_term (clean_search_term ''Some Unified School District'')
     = clean_search_term ''Some Unified School District''"
proof -
  have h: "has_text ''Some Unified School District''" by code_simp
  have v: "clean_search_term ''Some Unified School District'' = ''Some Unified''" by code_simp
  have d: "\<not> ends_with_district (clean_search_term ''Some Unified School District'')"
    unfolding v by code_simp
  from clean_search_term_fixed_point[of "''Some Unified School District''"] h d v
  show ?thesis by blast
qed

text \<open>
  As first stated, the claim asks for idempotence on every string and for a non-empty
  result on every non-empty string. Each suffix rule is applied once, so a second
  \<open>District\<close> survives the first pass and goes in the second; and a string of three
  spaces, which is not empty, is normalised to the empty string.
\<close>

theorem clean_search_term_not_idempotent:
  "clean_search_term (clean_search_term ''Lake District District'')
     \<noteq> clean_search_term ''Lake District District'' \<and>
   ''   '' \<noteq> [] \<and> clean_search_term ''   '' = []"
  by code_simp


section \<open>Contact extraction: the properties\<close>

lemma strip_empty_iff: "strip s = [] \<longleftrightarrow> \<not> has_text s"
  using has_text_strip[of s] trimmed_strip[of s] trimmed_has_text[of "strip s"] has_text_nonempty
  by blast

lemma split_on_chars:
  "x \<in> set s \<Longrightarrow> x \<noteq> sep \<Longrightarrow> \<exists>l \<in> set (split_on sep s). x \<in> set l"
proof (induction s)
  case Nil
  then show ?case by simp
next
  case (Cons c cs)
  show ?case
  proof (cases "c = sep")
    case True
    with Cons show ?thesis by auto
  next
    case False
    obtain l ls where sp: "split_on sep cs = l # ls"
      by (cases "split_on sep cs"; cases cs) (auto split: if_splits list.splits)
    show ?thesis
    proof (cases "x = c")
      case True
      then show ?thesis using False sp by simp
    next
      case ne: False
      with Cons have "\<exists>l \<in> set (split_on sep cs). x \<in> set l" by simp
      then show ?thesis using False sp by auto
    qed
  qed
qed

lemma first_kept:
  "(case [f l. l \<leftarrow> ls, p l] of [] \<Rightarrow> d | x # _ \<Rightarrow> x)
     = (case find p ls of None \<Rightarrow> d | Some l \<Rightarrow> f l)"
  by (induction ls) auto

lemma find_has_text:
  assumes "has_text s"
  shows "\<exists>l. find has_text (split_on CHR 0x0A s) = Some l"
proof -
  from assms obtain x where x: "x \<in> set s" "\<not> isspace x" by (auto simp: has_text_def)
  then have "x \<noteq> CHR 0x0A" using isspace_newline by auto
  with x(1) obtain l where "l \<in> set (split_on CHR 0x0A s)" "x \<in> set l"
    using split_on_chars by blast
  with x(2) have "\<exists>l \<in> set (split_on CHR 0x0A s). has_text l" by (auto simp: has_text_def)
  then show ?thesis by (cases "find has_text (split_on CHR 0x0A s)") (auto simp: find_None_iff)
qed

lemma extract_contact_info_value:
  assumes "element_text td = Inr t"
  shows "extract_contact_info td =
     Inr (case find has_text (split_on CHR 0x0A (strip t)) of None \<Rightarrow> ''N/A'' | Some l \<Rightarrow> strip l,
          case re_search_phone (strip t) of None \<Rightarrow> ''N/A'' | Some m \<Rightarrow> m,
          case mailto_link td of Inl e \<Rightarrow> ''N/A'' | Inr href \<Rightarrow> remove_all ''mailto:'' href)"
proof -
  have "(\<lambda>l. strip l \<noteq> []) = has_text" by (simp add: strip_empty_iff fun_eq_iff)
  then have "(case [strip l. l \<leftarrow> split_on CHR 0x0A (strip t), strip l \<noteq> []] of
               [] \<Rightarrow> ''N/A'' | x # _ \<Rightarrow> x)
           = (case find has_text (split_on CHR 0x0A (strip t)) of
               None \<Rightarrow> ''N/A'' | Some l \<Rightarrow> strip l)"
    using first_kept[where f = strip and p = "\<lambda>l. strip l \<noteq> []"
        and ls = "split_on CHR 0x0A (strip t)" and d = "''N/A''"]
    by simp
  then show ?thesis using assms by (simp add: extract_contact_info_def Let_def)
qed


lemma optional_sound: "optional p s = (a, s1) \<Longrightarrow> s = a @ s1 \<and> at_most_one p a"
  by (auto simp: optional_def at_most_one_def split: list.splits if_splits)

lemma digits_sound: "digits n s = Some (b, s1) \<Longrightarrow> s = b @ s1 \<and> all_digits n b"
  by (auto simp: digits_def all_digits_def split: if_splits)

lemma phone_match_sound:
  assumes "phone_match s = Some m"
  shows "phone_shaped m \<and> (\<exists>q. s = m @ q)"
proof -
  obtain a s1 where o1: "optional (\<lambda>c. c = CHR ''('') s = (a, s1)" by fastforce
  obtain b s2 where d1: "digits 3 s1 = Some (b, s2)"
    using assms o1 by (auto simp: phone_match_def split: option.splits)
  obtain c s3 where o2: "optional (\<lambda>c. c = CHR '')'') s2 = (c, s3)" by fastforce
  obtain d s4 where o3: "optional is_sep s3 = (d, s4)" by fastforce
  obtain e s5 where d2: "digits 3 s4 = Some (e, s5)"
    using assms o1 d1 o2 o3 by (auto simp: phone_match_def split: option.splits)
  obtain f s6 where o4: "optional is_sep s5 = (f, s6)" by fastforce
  obtain g s7 where d3: "digits 4 s6 = Some (g, s7)"
    using assms o1 d1 o2 o3 d2 o4 by (auto simp: phone_match_def split: option.splits)
  have m: "m = a @ b @ c @ d @ e @ f @ g"
    using assms o1 d1 o2 o3 d2 o4 d3 by (simp add: phone_match_def)
  have s: "s = m @ s7"
    using optional_sound[OF o1] digits_sound[OF d1] optional_sound[OF o2] optional_sound[OF o3]
      digits_sound[OF d2] optional_sound[OF o4] digits_sound[OF d3] m by simp
  have "phone_shaped m"
    unfolding phone_shaped_def
    using optional_sound[OF o1] digits_sound[OF d1] optional_sound[OF o2] optional_sound[OF o3]
      digits_sound[OF d2] optional_sound[OF o4] digits_sound[OF d3] m by blast
  with s show ?thesis by blast
qed

lemma re_search_phone_sound:
  "re_search_phone s = Some m \<Longrightarrow> phone_shaped m \<and> (\<exists>p q. s = p @ m @ q)"
proof (induction s)
  case Nil
  then show ?case by simp
next
  case (Cons c cs)
  show ?case
  proof (cases "phone_match (c # cs)")
    case None
    with Cons.prems have "re_search_phone cs = Some m" by simp
    from Cons.IH[OF this] obtain p q where "phone_shaped m" "cs = p @ m @ q" by blast
    then have "c # cs = (c # p) @ m @ q" by simp
    with \<open>phone_shaped m\<close> show ?thesis by blast
  next
    case (Some m')
    with Cons.prems have "m' = m" by simp
    with phone_match_sound[OF Some] obtain q where "phone_shaped m" "c # cs = [] @ m @ q" by auto
    then show ?thesis by blast
  qed
qed

lemma optional_take:
  "at_most_one p a \<Longrightarrow> r = [] \<or> \<not> p (hd r) \<Longrightarrow> optional p (a @ r) = (a, r)"
  by (cases r) (auto simp: optional_def at_most_one_def)

lemma digits_take: "all_digits n b \<Longrightarrow> digits n (b @ r) = Some (b, r)"
  by (auto simp: digits_def all_digits_def)

lemma digit_not_item:
  "isdigit x \<Longrightarrow> x \<noteq> CHR ''('' \<and> x \<noteq> CHR '')'' \<and> \<not> is_sep x"
  by (auto simp: isdigit_def is_sep_def isspace_def)

lemma sep_not_close: "is_sep x \<Longrightarrow> x \<noteq> CHR '')''"
  by (auto simp: is_sep_def isspace_def)

lemma all_digits_hd:
  "all_digits n b \<Longrightarrow> 0 < n \<Longrightarrow> b @ r \<noteq> [] \<and> isdigit (hd (b @ r))"
  by (cases b) (auto simp: all_digits_def)

lemma phone_match_complete:
  assumes "phone_shaped m"
  shows "phone_match (m @ q) = Some m"
proof -
  from assms obtain a b c d e f g where m: "m = a @ b @ c @ d @ e @ f @ g"
    and a: "at_most_one (\<lambda>x. x = CHR ''('') a" and b: "all_digits 3 b"
    and c: "at_most_one (\<lambda>x. x = CHR '')'') c" and d: "at_most_one is_sep d"
    and e: "all_digits 3 e" and f: "at_most_one is_sep f" and g: "all_digits 4 g"
    unfolding phone_shaped_def by blast
  let ?r6 = "g @ q" let ?r5 = "f @ ?r6" let ?r4 = "e @ ?r5" let ?r3 = "d @ ?r4"
  let ?r2 = "c @ ?r3" let ?r1 = "b @ ?r2"
  have hb: "isdigit (hd ?r1)" using all_digits_hd[OF b] by simp
  have he: "isdigit (hd ?r4)" using all_digits_hd[OF e] by simp
  have hg: "isdigit (hd ?r6)" using all_digits_hd[OF g] by simp
  have o1: "optional (\<lambda>x. x = CHR ''('') (a @ ?r1) = (a, ?r1)"
    using a hb digit_not_item by (intro optional_take) auto
  have d1: "digits 3 ?r1 = Some (b, ?r2)" using b by (rule digits_take)
  have "hd ?r3 \<noteq> CHR '')''"
  proof (cases d)
    case Nil
    then show ?thesis using he digit_not_item by auto
  next
    case (Cons x xs)
    with d have "is_sep x" by (auto simp: at_most_one_def)
    then show ?thesis using Cons sep_not_close by auto
  qed
  then have o2: "optional (\<lambda>x. x = CHR '')'') (c @ ?r3) = (c, ?r3)"
    using c by (intro optional_take) auto
  have o3: "optional is_sep (d @ ?r4) = (d, ?r4)"
    using d he digit_not_item by (intro optional_take) auto
  have d2: "digits 3 ?r4 = Some (e, ?r5)" using e by (rule digits_take)
  have o4: "optional is_sep (f @ ?r6) = (f, ?r6)"
    using f hg digit_not_item by (intro optional_take) auto
  have d3: "digits 4 ?r6 = Some (g, q)" using g by (rule digits_take)
  have "m @ q = a @ ?r1" by (simp add: m)
  then show ?thesis
    unfolding phone_match_def by (simp only: o1 d1 o2 o3 d2 o4 d3 prod.case option.case Let_def m)
qed

lemma re_search_phone_complete:
  assumes "phone_shaped m"
  shows "re_search_phone (p @ m @ q) \<noteq> None"
proof (induction p)
  case Nil
  from assms have "m \<noteq> []" by (auto simp: phone_shaped_def all_digits_def)
  then obtain x xs where "m @ q = x # xs" by (cases m) auto
  then show ?case using phone_match_complete[OF assms, of q] by simp
next
  case (Cons x p)
  then show ?case by (cases "phone_match (x # p @ m @ q)") auto
qed

lemma re_search_phone_None_iff:
  "re_search_phone s = None \<longleftrightarrow> \<not> (\<exists>p m q. s = p @ m @ q \<and> phone_shaped m)"
proof
  assume n: "re_search_phone s = None"
  show "\<not> (\<exists>p m q. s = p @ m @ q \<and> phone_shaped m)"
  proof
    assume "\<exists>p m q. s = p @ m @ q \<and> phone_shaped m"
    then obtain p m q where "s = p @ m @ q" "phone_shaped m" by blast
    with re_search_phone_complete[of m p q] n show False by simp
  qed
next
  assume a: "\<not> (\<exists>p m q. s = p @ m @ q \<and> phone_shaped m)"
  show "re_search_phone s = None"
  proof (cases "re_search_phone s")
    case None
    then show ?thesis .
  next
    case (Some m)
    from re_search_phone_sound[OF Some] a show ?thesis by blast
  qed
qed


text \<open>
  Claim C4. Given the text of a field block, \<open>extract_contact_info\<close> returns a triple and
  raises nothing: the phone is \<open>N/A\<close> when no part of the text matches the phone pattern,
  the email is \<open>N/A\<close> when looking up the \<open>mailto:\<close> link raises (the element is missing,
  or any other exception), and when the text has a character other than whitespace the
  name is its first line that has one, stripped, hence not empty.
\<close>

theorem extract_contact_info_sentinels:
  assumes "element_text td = Inr t"
  shows "\<exists>name phone_no mail. extract_contact_info td = Inr (name, phone_no, mail) \<and>
           (\<not> (\<exists>p m q. strip t = p @ m @ q \<and> phone_shaped m) \<longrightarrow> phone_no = ''N/A'') \<and>
           (\<forall>e. mailto_link td = Inl e \<longrightarrow> mail = ''N/A'') \<and>
           (has_text t \<longrightarrow>
              (\<exists>l. find has_text (split_on CHR 0x0A (strip t)) = Some l \<and>
                   name = strip l \<and> name \<noteq> []))"
proof -
  let ?name = "case find has_text (split_on CHR 0x0A (strip t)) of
                 None \<Rightarrow> ''N/A'' | Some l \<Rightarrow> strip l"
  let ?phone = "case re_search_phone (strip t) of None \<Rightarrow> ''N/A'' | Some m \<Rightarrow> m"
  let ?mail = "case mailto_link td of
                 Inl e \<Rightarrow> ''N/A'' | Inr href \<Rightarrow> remove_all ''mailto:'' href"
  have v: "extract_contact_info td = Inr (?name, ?phone, ?mail)"
    using assms by (rule extract_contact_info_value)
  have p: "\<not> (\<exists>p m q. strip t = p @ m @ q \<and> phone_shaped m) \<longrightarrow> ?phone = ''N/A''"
  proof
    assume "\<not> (\<exists>p m q. strip t = p @ m @ q \<and> phone_shaped m)"
    then have "re_search_phone (strip t) = None" by (rule iffD2[OF re_search_phone_None_iff])
    then show "?phone = ''N/A''" by simp
  qed
  have m: "\<forall>e. mailto_link td = Inl e \<longrightarrow> ?mail = ''N/A''" by simp
  have n: "has_text t \<longrightarrow>
             (\<exists>l. find has_text (split_on CHR 0x0A (strip t)) = Some l \<and>
                  ?name = strip l \<and> ?name \<noteq> [])"
  proof
    assume "has_text t"
    then have "has_text (strip t)" by (simp add: has_text_strip)
    from find_has_text[OF this] obtain l where
      l: "find has_text (split_on CHR 0x0A (strip t)) = Some l" by blast
    then have "has_text l" by (auto simp: find_Some_iff)
    then have "strip l \<noteq> []" by (simp add: strip_empty_iff)
    with l show "\<exists>l. find has_text (split_on CHR 0x0A (strip t)) = Some l \<and>
                     ?name = strip l \<and> ?name \<noteq> []" by simp
  qed
  from v p m n show ?thesis by blast
qed

text \<open>
  A block with a name and a role line, no phone number and no \<open>mailto:\<close> link.
\<close>

theorem extract_contact_info_sentinels_witness:
  "\<exists>name. extract_contact_info
            \<lparr>element_text = Inr ''Jane Doe\<newline>Superintendent'',
             mailto_link = Inl NoSuchElementException\<rparr> = Inr (name, ''N/A'', ''N/A'') \<and>
          name = ''Jane Doe''"
proof -
  let ?t = "''Jane Doe\<newline>Superintendent''"
  let ?td = "\<lparr>element_text = Inr ?t, mailto_link = Inl NoSuchElementException\<rparr>"
  have t: "element_text ?td = Inr ?t" by simp
  have "re_search_phone (strip ?t) = None" by code_simp
  then have np: "\<not> (\<exists>p m q. strip ?t = p @ m @ q \<and> phone_shaped m)"
    by (rule iffD1[OF re_search_phone_None_iff])
  have ht: "has_text ?t" by code_simp
  have fl: "find has_text (split_on CHR 0x0A (strip ?t)) = Some ''Jane Doe''" by code_simp
  have st: "strip ''Jane Doe'' = ''Jane Doe''" by code_simp
  from extract_contact_info_sentinels[OF t] obtain name phone_no mail where
    r: "extract_contact_info ?td = Inr (name, phone_no, mail)"
       "\<not> (\<exists>p m q. strip ?t = p @ m @ q \<and> phone_shaped m) \<longrightarrow> phone_no = ''N/A''"
       "\<forall>e. mailto_link ?td = Inl e \<longrightarrow> mail = ''N/A''"
       "has_text ?t \<longrightarrow> (\<exists>l. find has_text (split_on CHR 0x0A (strip ?t)) = Some l \<and>
                             name = strip l \<and> name \<noteq> [])"
    by blast
  from r(2) np have "phone_no = ''N/A''" by blast
  moreover from r(3) have "mail = ''N/A''" by simp
  moreover from r(4) ht fl st have "name = ''Jane Doe''" by simp
  ultimately show ?thesis using r(1) by simp
qed


section \<open>Matching: the properties\<close>

lemma startswith_iff: "startswith s p \<longleftrightarrow> (\<exists>r. s = p @ r)"
  unfolding startswith_def by (metis append_eq_conv_conj append_take_drop_id)

lemma contains_iff: "contains s needle \<longleftrightarrow> (\<exists>p r. s = p @ needle @ r)"
proof (induction s)
  case Nil
  then show ?case by auto
next
  case (Cons c cs)
  show ?case
  proof
    assume "contains (c # cs) needle"
    then consider "startswith (c # cs) needle" | "contains cs needle" by auto
    then show "\<exists>p r. c # cs = p @ needle @ r"
    proof cases
      case 1
      then obtain r where "c # cs = [] @ needle @ r" by (auto simp: startswith_iff)
      then show ?thesis by blast
    next
      case 2
      with Cons obtain p r where "cs = p @ needle @ r" by blast
      then have "c # cs = (c # p) @ needle @ r" by simp
      then show ?thesis by blast
    qed
  next
    assume "\<exists>p r. c # cs = p @ needle @ r"
    then obtain p r where e: "c # cs = p @ needle @ r" by blast
    show "contains (c # cs) needle"
    proof (cases p)
      case Nil
      with e have "startswith (c # cs) needle" unfolding startswith_iff by auto
      then show ?thesis by simp
    next
      case (Cons x xs)
      with e have "cs = xs @ needle @ r" by simp
      then show ?thesis using Cons.IH by auto
    qed
  qed
qed

text \<open>Both matchers take the first candidate, in render order, that passes their test.\<close>

lemma find_link_first:
  "find_link q ls = find (\<lambda>l. contains (lower (link_text l)) (lower q)) ls"
  by (induction ls) simp_all

lemma find_link_cde_first:
  "find_link_cde q ls =
     find (\<lambda>l. is_displayed l \<and> contains (lower (link_text l)) (lower q)) ls"
  by (induction ls) simp_all

lemma find_link_cde_selects:
  "find_link_cde q ls = Some l \<longleftrightarrow>
     (\<exists>i < length ls. l = ls ! i \<and> is_displayed l \<and>
        (\<exists>p r. lower (link_text l) = p @ lower q @ r) \<and>
        (\<forall>j < i. \<not> (is_displayed (ls ! j) \<and> (\<exists>p r. lower (link_text (ls ! j)) = p @ lower q @ r))))"
  unfolding find_link_cde_first find_Some_iff contains_iff by blast

lemma find_link_selects:
  "find_link q ls = Some l \<longleftrightarrow>
     (\<exists>i < length ls. l = ls ! i \<and> (\<exists>p r. lower (link_text l) = p @ lower q @ r) \<and>
        (\<forall>j < i. \<not> (\<exists>p r. lower (link_text (ls ! j)) = p @ lower q @ r)))"
  unfolding find_link_first find_Some_iff contains_iff by blast

text \<open>
  Claim C3. The claim asks for the first candidate that is visible and whose text
  contains the term. \<open>find_link\<close>, the matcher of \<open>run_scraper_with_config\<close>, does not look
  at visibility: with a hidden first candidate \<open>Alameda Unified\<close> and a visible second
  candidate \<open>East Alameda\<close>, it selects the hidden one for the term \<open>alameda\<close>, where
  \<open>find_link_cde\<close>, the matcher of \<open>search_districts_and_click_link_on_cde\<close>, selects the
  visible one.
\<close>

theorem find_link_selects_hidden_link:
  "find_link ''alameda''
     [\<lparr>link_text = ''Alameda Unified'', is_displayed = False, click = Some OtherException\<rparr>,
      \<lparr>link_text = ''East Alameda'', is_displayed = True, click = None\<rparr>]
     = Some \<lparr>link_text = ''Alameda Unified'', is_displayed = False, click = Some OtherException\<rparr> \<and>
   find_link_cde ''alameda''
     [\<lparr>link_text = ''Alameda Unified'', is_displayed = False, click = Some OtherException\<rparr>,
      \<lparr>link_text = ''East Alameda'', is_displayed = True, click = None\<rparr>]
     = Some \<lparr>link_text = ''East Alameda'', is_displayed = True, click = None\<rparr>"
  by code_simp


section \<open>The run\<close>

lemma unique_from_props:
  "distinct (unique_from seen xs) \<and> set (unique_from seen xs) = set xs - set seen"
  by (induction xs arbitrary: seen) auto

lemma distinct_unique: "distinct (unique xs)"
  by (simp add: unique_def unique_from_props)

lemma set_unique: "set (unique xs) = set xs"
  by (simp add: unique_def unique_from_props)

lemma set_dropna: "set (dropna cells) = {x. Some x \<in> set cells}"
  by (auto simp: dropna_def)

text \<open>A run either returns before the loop, leaving nothing behind, or runs the loop on
  the terms of the key column and then closes the browser, saves and reports.\<close>

lemma run_early:
  "read_excel world = Inl e \<or>
   (\<exists>df. read_excel world = Inr df \<and>
      (input_column cfg \<notin> set (columns df) \<or>
       unique (dropna (column df (input_column cfg))) = [] \<or> firefox world \<noteq> None)) \<Longrightarrow>
   \<exists>ts. run_scraper_with_config cfg world = early_return ts"
  by (auto simp: run_scraper_with_config_def Let_def split: sum.splits option.splits)

lemma run_loop:
  assumes "read_excel world = Inr df" "input_column cfg \<in> set (columns df)"
    "unique (dropna (column df (input_column cfg))) = ts" "ts \<noteq> []" "firefox world = None"
    "scrape_loop cfg (site world) ts initial = (how, s)"
  shows "run_scraper_with_config cfg world =
     \<lparr>search_terms = ts, ending = Some how, final = call Quit s,
      to_excel_call =
        (if scraped_records s \<noteq> []
         then Some (merge_left (input_column cfg) (rows df) (scraped_records s)) else None),
      to_excel_error = (if scraped_records s \<noteq> [] then to_excel world else None),
      skipped_items_txt = write_skipped (skipped_items s)\<rparr>"
  using assms by (simp add: run_scraper_with_config_def Let_def call_def)

lemma run_cases:
  obtains (early) ts where "run_scraper_with_config cfg world = early_return ts"
  | (loop) df ts how s where
      "read_excel world = Inr df" "input_column cfg \<in> set (columns df)"
      "unique (dropna (column df (input_column cfg))) = ts" "ts \<noteq> []" "firefox world = None"
      "scrape_loop cfg (site world) ts initial = (how, s)"
proof (cases "read_excel world")
  case (Inl e)
  then show ?thesis using run_early[of world] early by blast
next
  case (Inr df)
  show ?thesis
  proof (cases "input_column cfg \<notin> set (columns df) \<or>
       unique (dropna (column df (input_column cfg))) = [] \<or> firefox world \<noteq> None")
    case True
    with Inr have "\<exists>ts. run_scraper_with_config cfg world = early_return ts"
      by (intro run_early) blast
    then show ?thesis using early by blast
  next
    case False
    obtain how s where
      "scrape_loop cfg (site world) (unique (dropna (column df (input_column cfg)))) initial = (how, s)"
      by fastforce
    with Inr False show ?thesis by (intro loop[of df _ how s]) auto
  qed
qed

lemma recorded_initial: "recorded [] initial"
  by (simp add: recorded_def initial_def)

lemma recorded_call: "recorded outs (call c s) = recorded outs s"
  by (simp add: recorded_def call_def)

lemma recorded_count:
  "recorded outs s \<Longrightarrow> processed_count s + length (skipped_items s) = length outs"
proof -
  have "length [out \<leftarrow> outs. snd out = Processed] + length (entries outs) = length outs"
    by (induction outs rule: entries.induct) simp_all
  then show "recorded outs s \<Longrightarrow> processed_count s + length (skipped_items s) = length outs"
    by (simp add: recorded_def)
qed


section \<open>Outcomes\<close>

text \<open>
  Claim C1, as amended. When a run reaches the loop, the outcomes it has recorded at the
  end (the processed terms counted in \<open>processed_count\<close>, the skipped ones listed in
  \<open>skipped_items\<close>) are one outcome for each term of a prefix of the distinct terms it
  loaded, in order. The prefix is the whole list exactly when the loop ran to its end;
  when the loop was left early, by \<open>break\<close> or by an exception, the term at which it was
  left and the terms after it have no outcome.
\<close>

theorem outcomes_cover_completed_terms:
  assumes "ending (run_scraper_with_config cfg world) = Some how"
  shows "\<exists>outs rest.
           recorded outs (final (run_scraper_with_config cfg world)) \<and>
           processed_count (final (run_scraper_with_config cfg world))
             + length (skipped_items (final (run_scraper_with_config cfg world))) = length outs \<and>
           search_terms (run_scraper_with_config cfg world) = map fst outs @ rest \<and>
           (how = Normal \<longleftrightarrow> rest = []) \<and>
           distinct (search_terms (run_scraper_with_config cfg world))"
proof (cases rule: run_cases[of cfg world])
  case (early ts)
  with assms show ?thesis by (simp add: early_return_def)
next
  case (loop df ts how' s)
  note r = run_loop[OF loop]
  from assms r have how: "how' = how" by simp
  from scrape_loop_outcomes[OF recorded_initial loop(6)] obtain outs rest where
    o: "recorded outs s" "ts = map fst outs @ rest" "how' = Normal \<longleftrightarrow> rest = []" by auto
  have d: "distinct ts" using loop(3) distinct_unique by blast
  have c: "processed_count s + length (skipped_items s) = length outs"
    using o(1) by (rule recorded_count)
  show ?thesis
    using o d c how unfolding r
    by (intro exI[of _ outs] exI[of _ rest]) (simp add: recorded_call, simp add: call_def)
qed

text \<open>
  Two terms, the first found and the second without results: the loop runs to its end
  and the two outcomes, one processed and one skipped, are as many as the terms.
\<close>

theorem outcomes_cover_completed_terms_witness:
  "ending (run_scraper_with_config WEBSITE_CONFIG
      (sample_world [''Alameda Unified School District'', ''Nowhere'']
         (\<lambda>t. if t = ''Nowhere'' then timeout_visit else found_visit))) = Some Normal \<and>
   processed_count (final (run_scraper_with_config WEBSITE_CONFIG
      (sample_world [''Alameda Unified School District'', ''Nowhere'']
         (\<lambda>t. if t = ''Nowhere'' then timeout_visit else found_visit))))
   + length (skipped_items (final (run_scraper_with_config WEBSITE_CONFIG
      (sample_world [''Alameda Unified School District'', ''Nowhere'']
         (\<lambda>t. if t = ''Nowhere'' then timeout_visit else found_visit)))))
   = length (search_terms (run_scraper_with_config WEBSITE_CONFIG
      (sample_world [''Alameda Unified School District'', ''Nowhere'']
         (\<lambda>t. if t = ''Nowhere'' then timeout_visit else found_visit))))"
proof -
  let ?r = "run_scraper_with_config WEBSITE_CONFIG
      (sample_world [''Alameda Unified School District'', ''Nowhere'']
         (\<lambda>t. if t = ''Nowhere'' then timeout_visit else found_visit))"
  have e: "ending ?r = Some Normal" by code_simp
  from outcomes_cover_completed_terms[OF e]
  obtain outs :: "(string \<times> status) list" and rest where
    "processed_count (final ?r) + length (skipped_items (final ?r)) = length outs"
    "search_terms ?r = map fst outs @ rest" "Normal = Normal \<longleftrightarrow> rest = []" by blast
  then have "processed_count (final ?r) + length (skipped_items (final ?r))
               = length (search_terms ?r)" by simp
  with e show ?thesis by blast
qed

text \<open>
  As first stated, the claim counts one outcome per term also when the loop ends early.
  With two terms and a search field that never appears, the loop is left by \<open>break\<close> in
  the first iteration: two terms, no outcome.
\<close>

theorem early_exit_drops_terms:
  "search_terms (run_scraper_with_config WEBSITE_CONFIG
      (sample_world [''Alameda Unified'', ''Berkeley Unified''] (\<lambda>t. no_search_bar_visit)))
     = [''Alameda Unified'', ''Berkeley Unified''] \<and>
   ending (run_scraper_with_config WEBSITE_CONFIG
      (sample_world [''Alameda Unified'', ''Berkeley Unified''] (\<lambda>t. no_search_bar_visit)))
     = Some Break \<and>
   processed_count (final (run_scraper_with_config WEBSITE_CONFIG
      (sample_world [''Alameda Unified'', ''Berkeley Unified''] (\<lambda>t. no_search_bar_visit)))) = 0 \<and>
   skipped_items (final (run_scraper_with_config WEBSITE_CONFIG
      (sample_world [''Alameda Unified'', ''Berkeley Unified''] (\<lambda>t. no_search_bar_visit)))) = []"
  by code_simp


section \<open>The skip report\<close>

lemma split_on_line:
  "sep \<notin> set l \<Longrightarrow> split_on sep (l @ sep # r) = l # split_on sep r"
  by (induction l) auto

lemma split_on_entries:
  "\<forall>l \<in> set ls. sep \<notin> set l \<Longrightarrow> split_on sep (concat (map (\<lambda>l. l @ [sep]) ls)) = ls @ [[]]"
  by (induction ls) (simp_all add: split_on_line)

lemma file_lines_entries:
  "\<forall>l \<in> set ls. CHR 0x0A \<notin> set l \<Longrightarrow>
     file_lines (concat (map (\<lambda>l. l @ [CHR 0x0A]) ls)) = ls"
  by (simp add: file_lines_def split_on_entries)

lemma reason_one_line: "reason \<in> reasons \<Longrightarrow> CHR 0x0A \<notin> set reason"
  unfolding reasons_def by (elim insertE emptyE) simp_all

lemma skipped_entry_one_line:
  "CHR 0x0A \<notin> set t \<Longrightarrow> reason \<in> reasons \<Longrightarrow> CHR 0x0A \<notin> set (skipped_entry t reason)"
  using reason_one_line[of reason] by (simp add: skipped_entry_def)

lemma run_skipped_items:
  "\<forall>l \<in> set (skipped_items (final (run_scraper_with_config cfg world))).
     \<exists>t \<in> set (search_terms (run_scraper_with_config cfg world)).
     \<exists>reason \<in> reasons. l = skipped_entry t reason"
proof (cases rule: run_cases[of cfg world])
  case (early ts)
  then show ?thesis by (simp add: early_return_def initial_def)
next
  case (loop df ts how s)
  from scrape_loop_skipped[OF loop(6)] have
    "\<forall>l \<in> set (skipped_items s). \<exists>t \<in> set ts. \<exists>reason \<in> reasons. l = skipped_entry t reason"
    by (simp add: initial_def)
  then show ?thesis unfolding run_loop[OF loop] by (simp add: call_def)
qed

lemma run_skipped_txt:
  "skipped_items_txt (run_scraper_with_config cfg world)
     = write_skipped (skipped_items (final (run_scraper_with_config cfg world)))"
proof (cases rule: run_cases[of cfg world])
  case (early ts)
  then show ?thesis by (simp add: early_return_def initial_def write_skipped_def)
next
  case (loop df ts how s)
  show ?thesis unfolding run_loop[OF loop] by (simp add: call_def)
qed

text \<open>
  Claim C8, as amended. \<open>skipped_items.txt\<close> is written only when \<open>skipped_items\<close> is not
  empty. Its text is then the entries of \<open>skipped_items\<close> in order, each followed by a
  newline, and every entry is \<open>"<original term> (<reason>)"\<close> for a term of the run and
  one of the three reasons. When no term of the run contains a newline, the lines of the
  file are exactly the entries: one line per skipped term.
\<close>

theorem skipped_report_entries:
  "skipped_items_txt (run_scraper_with_config cfg world) =
     (if skipped_items (final (run_scraper_with_config cfg world)) = [] then None
      else Some (concat (map (\<lambda>l. l @ [CHR 0x0A])
                   (skipped_items (final (run_scraper_with_config cfg world)))))) \<and>
   (\<forall>l \<in> set (skipped_items (final (run_scraper_with_config cfg world))).
      \<exists>t \<in> set (search_terms (run_scraper_with_config cfg world)).
      \<exists>reason \<in> reasons. l = skipped_entry t reason) \<and>
   ((\<forall>t \<in> set (search_terms (run_scraper_with_config cfg world)). CHR 0x0A \<notin> set t) \<longrightarrow>
      (\<forall>body. skipped_items_txt (run_scraper_with_config cfg world) = Some body \<longrightarrow>
         file_lines body = skipped_items (final (run_scraper_with_config cfg world))))"
proof -
  let ?r = "run_scraper_with_config cfg world"
  have a: "skipped_items_txt ?r =
     (if skipped_items (final ?r) = [] then None
      else Some (concat (map (\<lambda>l. l @ [CHR 0x0A]) (skipped_items (final ?r)))))"
    by (simp add: run_skipped_txt write_skipped_def)
  have b: "\<forall>l \<in> set (skipped_items (final ?r)).
      \<exists>t \<in> set (search_terms ?r). \<exists>reason \<in> reasons. l = skipped_entry t reason"
    by (rule run_skipped_items)
  have c: "file_lines body = skipped_items (final ?r)"
    if t: "\<forall>t \<in> set (search_terms ?r). CHR 0x0A \<notin> set t" and s: "skipped_items_txt ?r = Some body"
    for body
  proof -
    have "\<forall>l \<in> set (skipped_items (final ?r)). CHR 0x0A \<notin> set l"
    proof
      fix l assume "l \<in> set (skipped_items (final ?r))"
      with b obtain u reason where "u \<in> set (search_terms ?r)" "reason \<in> reasons"
        "l = skipped_entry u reason" by blast
      with t show "CHR 0x0A \<notin> set l" by (simp add: skipped_entry_one_line)
    qed
    then have "file_lines (concat (map (\<lambda>l. l @ [CHR 0x0A]) (skipped_items (final ?r))))
                 = skipped_items (final ?r)" by (rule file_lines_entries)
    moreover have "body = concat (map (\<lambda>l. l @ [CHR 0x0A]) (skipped_items (final ?r)))"
      using a s by (simp split: if_splits)
    ultimately show ?thesis by simp
  qed
  show ?thesis
  proof (intro conjI impI allI)
    show "skipped_items_txt ?r =
       (if skipped_items (final ?r) = [] then None
        else Some (concat (map (\<lambda>l. l @ [CHR 0x0A]) (skipped_items (final ?r)))))" by (rule a)
    show "\<forall>l \<in> set (skipped_items (final ?r)).
        \<exists>t \<in> set (search_terms ?r). \<exists>reason \<in> reasons. l = skipped_entry t reason" by (rule b)
    show "file_lines body = skipped_items (final ?r)"
      if "\<forall>t \<in> set (search_terms ?r). CHR 0x0A \<notin> set t" "skipped_items_txt ?r = Some body"
      for body using that by (rule c)
  qed
qed

text \<open>
  Three terms, the last two without results: two entries, two lines.
\<close>

theorem skipped_report_entries_witness:
  "skipped_items_txt (run_scraper_with_config WEBSITE_CONFIG
      (sample_world [''Alameda Unified School District'', ''Nowhere'', ''Elsewhere'']
         (\<lambda>t. if t = ''Alameda Unified School District'' then found_visit else timeout_visit)))
     = Some ''Nowhere (No search results)\<newline>Elsewhere (No search results)\<newline>'' \<and>
   file_lines ''Nowhere (No search results)\<newline>Elsewhere (No search results)\<newline>''
     = skipped_items (final (run_scraper_with_config WEBSITE_CONFIG
      (sample_world [''Alameda Unified School District'', ''Nowhere'', ''Elsewhere'']
         (\<lambda>t. if t = ''Alameda Unified School District'' then found_visit else timeout_visit)))) \<and>
   (\<exists>t reason. t \<in> set (search_terms (run_scraper_with_config WEBSITE_CONFIG
      (sample_world [''Alameda Unified School District'', ''Nowhere'', ''Elsewhere'']
         (\<lambda>t. if t = ''Alameda Unified School District'' then found_visit else timeout_visit)))) \<and>
      reason \<in> reasons \<and> ''Nowhere (No search results)'' = skipped_entry t reason)"
proof -
  let ?r = "run_scraper_with_config WEBSITE_CONFIG
      (sample_world [''Alameda Unified School District'', ''Nowhere'', ''Elsewhere'']
         (\<lambda>t. if t = ''Alameda Unified School District'' then found_visit else timeout_visit))"
  let ?body = "''Nowhere (No search results)\<newline>Elsewhere (No search results)\<newline>''"
  have body: "skipped_items_txt ?r = Some ?body" by code_simp
  have ts: "search_terms ?r = [''Alameda Unified School District'', ''Nowhere'', ''Elsewhere'']"
    by code_simp
  have nl: "\<forall>t \<in> set (search_terms ?r). CHR 0x0A \<notin> set t" unfolding ts by simp
  have mem: "''Nowhere (No search results)'' \<in> set (skipped_items (final ?r))" by code_simp
  note rep = skipped_report_entries[of WEBSITE_CONFIG
      "sample_world [''Alameda Unified School District'', ''Nowhere'', ''Elsewhere'']
         (\<lambda>t. if t = ''Alameda Unified School District'' then found_visit else timeout_visit)"]
  from rep nl body have "file_lines ?body = skipped_items (final ?r)" by blast
  moreover from rep mem have "\<exists>t \<in> set (search_terms ?r). \<exists>reason \<in> reasons.
      ''Nowhere (No search results)'' = skipped_entry t reason" by blast
  ultimately show ?thesis using body by blast
qed

text \<open>
  As first stated, the claim counts one line per skipped term for every run. A key cell
  with a line break in it gives one entry that is two lines of the file, neither of them
  of the form \<open>"<original term> (<reason>)"\<close>.
\<close>

theorem skipped_report_line_break:
  "skipped_items (final (run_scraper_with_config WEBSITE_CONFIG
      (sample_world [''Alameda\<newline>Unified''] (\<lambda>t. timeout_visit))))
     = [''Alameda\<newline>Unified (No search results)''] \<and>
   map_option file_lines (skipped_items_txt (run_scraper_with_config WEBSITE_CONFIG
      (sample_world [''Alameda\<newline>Unified''] (\<lambda>t. timeout_visit))))
     = Some [''Alameda'', ''Unified (No search results)'']"
  by code_simp


section \<open>Saving\<close>

lemma merge_row_rows:
  "map fst (merge_row key recs r) = replicate (max 1 (length (matches_of key recs r))) r"
proof (cases "matches_of key recs r")
  case Nil
  then show ?thesis by (simp add: merge_row_def)
next
  case (Cons a ms)
  have "map fst (map (\<lambda>c. (r, Some c)) (a # ms)) = replicate (length (a # ms)) r"
    by (induction ms) simp_all
  then show ?thesis using Cons by (simp add: merge_row_def)
qed

lemma merge_left_rows:
  "map fst (merge_left key left_rows recs) =
     concat (map (\<lambda>r. replicate (max 1 (length (matches_of key recs r))) r) left_rows)"
  by (induction left_rows) (simp_all add: merge_left_def merge_row_rows)

lemma merge_left_length: "length left_rows \<le> length (merge_left key left_rows recs)"
proof -
  have "length left_rows \<le> length (map fst (merge_left key left_rows recs))"
    unfolding merge_left_rows by (induction left_rows) auto
  then show ?thesis by simp
qed

lemma set_merge_row:
  "set (merge_row key recs r) =
     (if matches_of key recs r = [] then {(r, None)}
      else (\<lambda>c. (r, Some c)) ` set (matches_of key recs r))"
  by (cases "matches_of key recs r") (simp_all add: merge_row_def)

lemma set_merge_left:
  "set (merge_left key left_rows recs) = (\<Union>r \<in> set left_rows. set (merge_row key recs r))"
  by (simp add: merge_left_def)

lemma merge_left_unmatched:
  "r \<in> set left_rows \<Longrightarrow> matches_of key recs r = [] \<Longrightarrow>
     (r, None) \<in> set (merge_left key left_rows recs)"
  unfolding set_merge_left by (rule UN_I[of r]) (simp_all add: set_merge_row)

lemma merge_left_matched:
  "r \<in> set left_rows \<Longrightarrow> c \<in> set (matches_of key recs r) \<Longrightarrow>
     (r, Some c) \<in> set (merge_left key left_rows recs)"
  unfolding set_merge_left by (rule UN_I[of r]) (auto simp: set_merge_row)

lemma merge_left_record:
  assumes "(r, Some c) \<in> set (merge_left key left_rows recs)"
  shows "r \<in> set left_rows \<and> c \<in> set recs \<and> r key = Some (source_term c)"
proof -
  from assms obtain r' where r': "r' \<in> set left_rows" "(r, Some c) \<in> set (merge_row key recs r')"
    unfolding set_merge_left by blast
  from r'(2) have "r = r' \<and> c \<in> set (matches_of key recs r')"
    unfolding set_merge_row by (auto split: if_splits)
  with r'(1) show ?thesis by (auto simp: matches_of_def)
qed

lemma run_saved:
  assumes "to_excel_call (run_scraper_with_config cfg world) = Some written"
  shows "\<exists>df. read_excel world = Inr df \<and>
           scraped_records (final (run_scraper_with_config cfg world)) \<noteq> [] \<and>
           written = merge_left (input_column cfg) (rows df)
                       (scraped_records (final (run_scraper_with_config cfg world)))"
proof (cases rule: run_cases[of cfg world])
  case (early ts)
  with assms show ?thesis by (simp add: early_return_def)
next
  case (loop df ts how s)
  from assms show ?thesis unfolding run_loop[OF loop] using loop(1)
    by (simp add: call_def split: if_splits)
qed

lemma run_not_saved:
  assumes "scraped_records (final (run_scraper_with_config cfg world)) = []"
  shows "to_excel_call (run_scraper_with_config cfg world) = None \<and>
         to_excel_error (run_scraper_with_config cfg world) = None"
proof (cases rule: run_cases[of cfg world])
  case (early ts)
  then show ?thesis by (simp add: early_return_def)
next
  case (loop df ts how s)
  from assms show ?thesis unfolding run_loop[OF loop] by (simp add: call_def)
qed

lemma run_records:
  "\<forall>c \<in> set (scraped_records (final (run_scraper_with_config cfg world))).
     contact_name c \<noteq> ''N/A'' \<and> source_term c \<in> set (search_terms (run_scraper_with_config cfg world))"
proof (cases rule: run_cases[of cfg world])
  case (early ts)
  then show ?thesis by (simp add: early_return_def initial_def)
next
  case (loop df ts how s)
  from scrape_loop_records[OF loop(6)] have
    "\<forall>c \<in> set (scraped_records s). contact_name c \<noteq> ''N/A'' \<and> source_term c \<in> set ts"
    by (simp add: initial_def)
  then show ?thesis unfolding run_loop[OF loop] by (simp add: call_def)
qed

text \<open>
  Claim C7. The frame a run saves is the left join of the input rows with the scraped
  records on the key column: it has at least as many rows as the input, its rows are the
  input rows in their order, each once per record with its key and once when there is
  none, and a row with no matching record is there with its output columns missing.
\<close>

theorem saved_frame_is_left_join:
  assumes "to_excel_call (run_scraper_with_config cfg world) = Some written"
  shows "\<exists>df. read_excel world = Inr df \<and>
           written = merge_left (input_column cfg) (rows df)
                       (scraped_records (final (run_scraper_with_config cfg world))) \<and>
           length (rows df) \<le> length written \<and>
           map fst written =
             concat (map (\<lambda>r. replicate (max 1 (length (matches_of (input_column cfg)
                       (scraped_records (final (run_scraper_with_config cfg world))) r))) r)
                     (rows df)) \<and>
           (\<forall>r \<in> set (rows df).
              matches_of (input_column cfg)
                (scraped_records (final (run_scraper_with_config cfg world))) r = []
              \<longrightarrow> (r, None) \<in> set written)"
proof -
  from run_saved[OF assms] obtain df where df: "read_excel world = Inr df"
    "written = merge_left (input_column cfg) (rows df)
                 (scraped_records (final (run_scraper_with_config cfg world)))" by blast
  show ?thesis
    using df merge_left_length merge_left_rows merge_left_unmatched
    by (intro exI[of _ df]) simp
qed

text \<open>
  Two input rows, a record for the first only: two rows are saved, the second with its
  output columns missing.
\<close>

theorem saved_frame_is_left_join_witness:
  "\<exists>written. to_excel_call (run_scraper_with_config WEBSITE_CONFIG
      (sample_world [''Alameda Unified'', ''Nowhere'']
         (\<lambda>t. if t = ''Nowhere'' then timeout_visit else found_visit))) = Some written \<and>
     2 \<le> length written \<and>
     map snd written =
       [Some \<lparr>source_term = ''Alameda Unified'', contact_name = ''Jane Doe'',
              job_title = ''Superintendent'', email = ''N/A'', phone = ''N/A''\<rparr>, None]"
proof -
  let ?w = "sample_world [''Alameda Unified'', ''Nowhere'']
         (\<lambda>t. if t = ''Nowhere'' then timeout_visit else found_visit)"
  let ?r = "run_scraper_with_config WEBSITE_CONFIG ?w"
  have "map_option (map snd) (to_excel_call ?r) =
     Some [Some \<lparr>source_term = ''Alameda Unified'', contact_name = ''Jane Doe'',
              job_title = ''Superintendent'', email = ''N/A'', phone = ''N/A''\<rparr>, None]"
    by code_simp
  then obtain written where w: "to_excel_call ?r = Some written"
    "map snd written =
       [Some \<lparr>source_term = ''Alameda Unified'', contact_name = ''Jane Doe'',
              job_title = ''Superintendent'', email = ''N/A'', phone = ''N/A''\<rparr>, None]"
    by (cases "to_excel_call ?r") auto
  from saved_frame_is_left_join[OF w(1)] obtain df where
    df: "read_excel ?w = Inr df" "length (rows df) \<le> length written" by blast
  from df(1) have "length (rows df) = 2" by (auto simp: sample_world_def)
  with df(2) w show ?thesis by auto
qed

text \<open>
  Claim C9. A run that ends with no scraped record does not call \<open>to_excel\<close>: nothing is
  written to the input file.
\<close>

theorem no_records_no_write:
  assumes "scraped_records (final (run_scraper_with_config cfg world)) = []"
  shows "to_excel_call (run_scraper_with_config cfg world) = None"
  using run_not_saved[OF assms] by simp

text \<open>
  Two terms without results: no record, no call of \<open>to_excel\<close>.
\<close>

theorem no_records_no_write_witness:
  "scraped_records (final (run_scraper_with_config WEBSITE_CONFIG
      (sample_world [''Nowhere'', ''Elsewhere''] (\<lambda>t. timeout_visit)))) = [] \<and>
   map_option length (to_excel_call (run_scraper_with_config WEBSITE_CONFIG
      (sample_world [''Nowhere'', ''Elsewhere''] (\<lambda>t. timeout_visit)))) = None"
proof -
  let ?r = "run_scraper_with_config WEBSITE_CONFIG
      (sample_world [''Nowhere'', ''Elsewhere''] (\<lambda>t. timeout_visit))"
  have e: "scraped_records (final ?r) = []" by code_simp
  from no_records_no_write[OF e] e show ?thesis by simp
qed

text \<open>
  Claim C10. Every record a run collects, and so every record in the frame it saves, has
  a name other than \<open>N/A\<close>; its phone and its email may both be \<open>N/A\<close>.
\<close>

theorem saved_records_have_names:
  "(\<forall>c \<in> set (scraped_records (final (run_scraper_with_config cfg world))).
      contact_name c \<noteq> ''N/A'') \<and>
   (\<forall>written. to_excel_call (run_scraper_with_config cfg world) = Some written \<longrightarrow>
      (\<forall>c. Some c \<in> set (map snd written) \<longrightarrow>
         c \<in> set (scraped_records (final (run_scraper_with_config cfg world))) \<and>
         contact_name c \<noteq> ''N/A''))"
proof (intro conjI allI impI)
  show n: "\<forall>c \<in> set (scraped_records (final (run_scraper_with_config cfg world))).
      contact_name c \<noteq> ''N/A''" using run_records[of cfg world] by blast
  fix written c
  assume w: "to_excel_call (run_scraper_with_config cfg world) = Some written"
    and c: "Some c \<in> set (map snd written)"
  from run_saved[OF w] obtain df :: dataframe where
    "written = merge_left (input_column cfg) (rows df)
                 (scraped_records (final (run_scraper_with_config cfg world)))" by blast
  moreover from c obtain r where "(r, Some c) \<in> set written" by auto
  ultimately show m: "c \<in> set (scraped_records (final (run_scraper_with_config cfg world)))"
    using merge_left_record by blast
  with n show "contact_name c \<noteq> ''N/A''" by blast
qed

text \<open>
  A record with a name whose phone and email are both \<open>N/A\<close> is saved.
\<close>

theorem saved_records_have_names_witness:
  "\<exists>written c. to_excel_call (run_scraper_with_config WEBSITE_CONFIG
      (sample_world [''Alameda Unified''] (\<lambda>t. found_visit))) = Some written \<and>
     Some c \<in> set (map snd written) \<and>
     contact_name c \<noteq> ''N/A'' \<and> phone c = ''N/A'' \<and> email c = ''N/A''"
proof -
  let ?r = "run_scraper_with_config WEBSITE_CONFIG
      (sample_world [''Alameda Unified''] (\<lambda>t. found_visit))"
  let ?c = "\<lparr>source_term = ''Alameda Unified'', contact_name = ''Jane Doe'',
              job_title = ''Superintendent'', email = ''N/A'', phone = ''N/A''\<rparr>"
  have "map_option (map snd) (to_excel_call ?r) = Some [Some ?c]" by code_simp
  then obtain written where w: "to_excel_call ?r = Some written" "map snd written = [Some ?c]"
    by (cases "to_excel_call ?r") auto
  then have c: "Some ?c \<in> set (map snd written)" by simp
  from saved_records_have_names[of WEBSITE_CONFIG
      "sample_world [''Alameda Unified''] (\<lambda>t. found_visit)"] w(1) c
  have "contact_name ?c \<noteq> ''N/A''" by blast
  with w(1) c show ?thesis by (intro exI[of _ written] exI[of _ ?c]) simp
qed


section \<open>Driver calls, failures and skips\<close>






lemma scrape_loop_split:
  assumes "scrape_loop cfg web before s = (Normal, s1)"
  shows "scrape_loop cfg web (before @ t # rest) s =
     (if fst (process_term cfg (web t) t s1) = Normal
      then scrape_loop cfg web rest (snd (process_term cfg (web t) t s1))
      else process_term cfg (web t) t s1)"
  using assms by (simp add: scrape_loop_append scrape_loop_Cons)

lemma process_term_leaves:
  assumes "process_term cfg v t s = (how, s')" "how \<noteq> Normal"
  shows "scraped_records s' = scraped_records s \<and> skipped_items s' = skipped_items s \<and>
         processed_count s' = processed_count s"
  using process_term_effect[of t s cfg v] assms by (simp add: effect_def)

lemma collected_record_has_row:
  assumes "unique (dropna (column df key)) = before @ t # rest"
    "scrape_loop cfg web before initial = (Normal, s1)"
    "c \<in> set (scraped_records s1)"
  shows "\<exists>r \<in> set (rows df). (r, Some c) \<in> set (merge_left key (rows df) (scraped_records s1))"
proof -
  from scrape_loop_records[OF assms(2)] assms(3) have "source_term c \<in> set before"
    by (auto simp: initial_def)
  then have "source_term c \<in> set (unique (dropna (column df key)))"
    by (simp add: assms(1))
  then have "Some (source_term c) \<in> set (column df key)"
    by (simp add: set_unique set_dropna)
  then obtain r where r: "r \<in> set (rows df)" "r key = Some (source_term c)"
    by (auto simp: column_def)
  from r(2) assms(3) have "c \<in> set (matches_of key (scraped_records s1) r)"
    by (simp add: matches_of_def)
  with r(1) have "(r, Some c) \<in> set (merge_left key (rows df) (scraped_records s1))"
    by (rule merge_left_matched)
  with r(1) show ?thesis by blast
qed

text \<open>
  Claim C6. When the loop is left early at a term, by \<open>break\<close> or by an exception, after
  the terms before it were handled, the records collected for those terms are all the
  records of the run; if there are any, \<open>to_excel\<close> is called with their left join onto
  the input rows, in which every one of them is carried by a row of the input (and only
  an exception of \<open>to_excel\<close> itself, which is caught, can keep them from the file), and
  the last driver call is \<open>quit\<close>.
\<close>

theorem fatal_failure_saves_collected_records:
  assumes "read_excel world = Inr df" "input_column cfg \<in> set (columns df)"
    "firefox world = None"
    "unique (dropna (column df (input_column cfg))) = before @ t # rest"
    "scrape_loop cfg (site world) before initial = (Normal, s1)"
    "process_term cfg (site world t) t s1 = (how, s2)" "how \<noteq> Normal"
  shows "ending (run_scraper_with_config cfg world) = Some how \<and>
         scraped_records (final (run_scraper_with_config cfg world)) = scraped_records s1 \<and>
         to_excel_call (run_scraper_with_config cfg world) =
           (if scraped_records s1 = [] then None
            else Some (merge_left (input_column cfg) (rows df) (scraped_records s1))) \<and>
         (\<forall>c \<in> set (scraped_records s1).
            \<exists>written. to_excel_call (run_scraper_with_config cfg world) = Some written \<and>
              (\<exists>r \<in> set (rows df). (r, Some c) \<in> set written)) \<and>
         to_excel_error (run_scraper_with_config cfg world) =
           (if scraped_records s1 = [] then None else to_excel world) \<and>
         last (driver_calls (final (run_scraper_with_config cfg world))) = Quit"
proof -
  have l: "scrape_loop cfg (site world) (before @ t # rest) initial = (how, s2)"
    using assms(6,7) by (simp add: scrape_loop_split[OF assms(5)])
  have ne: "before @ t # rest \<noteq> []" by simp
  note r = run_loop[OF assms(1,2,4) ne assms(3) l]
  from process_term_leaves[OF assms(6,7)] have k: "scraped_records s2 = scraped_records s1"
    by simp
  have call: "to_excel_call (run_scraper_with_config cfg world) =
           (if scraped_records s1 = [] then None
            else Some (merge_left (input_column cfg) (rows df) (scraped_records s1)))"
    unfolding r by (simp add: k call_def)
  have carried: "\<forall>c \<in> set (scraped_records s1).
            \<exists>written. to_excel_call (run_scraper_with_config cfg world) = Some written \<and>
              (\<exists>r \<in> set (rows df). (r, Some c) \<in> set written)"
  proof
    fix c assume c: "c \<in> set (scraped_records s1)"
    then have "scraped_records s1 \<noteq> []" by auto
    with call have "to_excel_call (run_scraper_with_config cfg world) =
        Some (merge_left (input_column cfg) (rows df) (scraped_records s1))" by simp
    moreover have "\<exists>r \<in> set (rows df).
        (r, Some c) \<in> set (merge_left (input_column cfg) (rows df) (scraped_records s1))"
      using assms(4,5) c by (rule collected_record_has_row)
    ultimately show "\<exists>written. to_excel_call (run_scraper_with_config cfg world) = Some written \<and>
              (\<exists>r \<in> set (rows df). (r, Some c) \<in> set written)" by blast
  qed
  have others: "ending (run_scraper_with_config cfg world) = Some how"
    "scraped_records (final (run_scraper_with_config cfg world)) = scraped_records s1"
    "to_excel_error (run_scraper_with_config cfg world) =
           (if scraped_records s1 = [] then None else to_excel world)"
    "last (driver_calls (final (run_scraper_with_config cfg world))) = Quit"
    unfolding r by (simp_all add: k call_def)
  from others call carried show ?thesis by (intro conjI)
qed

text \<open>
  Three terms: the first is found, the session is lost at the second. The frame passed
  to \<open>to_excel\<close> has the three input rows, the first with the record of the first term,
  and the browser is closed.
\<close>

theorem fatal_failure_saves_collected_records_witness:
  "ending (run_scraper_with_config WEBSITE_CONFIG
      (sample_world [''Alameda Unified'', ''Berkeley Unified'', ''Nowhere'']
         (\<lambda>t. if t = ''Berkeley Unified'' then lost_visit else found_visit)))
     = Some (Raise OtherException) \<and>
   scraped_records (final (run_scraper_with_config WEBSITE_CONFIG
      (sample_world [''Alameda Unified'', ''Berkeley Unified'', ''Nowhere'']
         (\<lambda>t. if t = ''Berkeley Unified'' then lost_visit else found_visit))))
     = [\<lparr>source_term = ''Alameda Unified'', contact_name = ''Jane Doe'',
         job_title = ''Superintendent'', email = ''N/A'', phone = ''N/A''\<rparr>] \<and>
   to_excel_call (run_scraper_with_config WEBSITE_CONFIG
      (sample_world [''Alameda Unified'', ''Berkeley Unified'', ''Nowhere'']
         (\<lambda>t. if t = ''Berkeley Unified'' then lost_visit else found_visit)))
     = Some [(sample_row ''Alameda Unified'',
              Some \<lparr>source_term = ''Alameda Unified'', contact_name = ''Jane Doe'',
                    job_title = ''Superintendent'', email = ''N/A'', phone = ''N/A''\<rparr>),
             (sample_row ''Berkeley Unified'', None),
             (sample_row ''Nowhere'', None)] \<and>
   last (driver_calls (final (run_scraper_with_config WEBSITE_CONFIG
      (sample_world [''Alameda Unified'', ''Berkeley Unified'', ''Nowhere'']
         (\<lambda>t. if t = ''Berkeley Unified'' then lost_visit else found_visit))))) = Quit"
proof -
  let ?web = "\<lambda>t. if t = ''Berkeley Unified'' then lost_visit else found_visit"
  let ?w = "sample_world [''Alameda Unified'', ''Berkeley Unified'', ''Nowhere''] ?web"
  let ?df = "\<lparr>columns = [''District Name'', ''Other Data''],
              rows = map sample_row [''Alameda Unified'', ''Berkeley Unified'', ''Nowhere'']\<rparr>"
  let ?s1 = "snd (scrape_loop WEBSITE_CONFIG ?web [''Alameda Unified''] initial)"
  let ?rec = "\<lparr>source_term = ''Alameda Unified'', contact_name = ''Jane Doe'',
         job_title = ''Superintendent'', email = ''N/A'', phone = ''N/A''\<rparr>"
  have site: "site ?w = ?web" by (simp add: sample_world_def)
  have a1: "read_excel ?w = Inr ?df" by (simp add: sample_world_def)
  have a2: "input_column WEBSITE_CONFIG \<in> set (columns ?df)" by (simp add: WEBSITE_CONFIG_def)
  have a3: "firefox ?w = None" by (simp add: sample_world_def)
  have a4: "unique (dropna (column ?df (input_column WEBSITE_CONFIG)))
              = [''Alameda Unified''] @ ''Berkeley Unified'' # [''Nowhere'']" by code_simp
  have "fst (scrape_loop WEBSITE_CONFIG ?web [''Alameda Unified''] initial) = Normal"
    by code_simp
  then have a5: "scrape_loop WEBSITE_CONFIG (site ?w) [''Alameda Unified''] initial = (Normal, ?s1)"
    unfolding site by (simp add: prod_eq_iff)
  have recs: "scraped_records ?s1 = [?rec]" by code_simp
  have "fst (process_term WEBSITE_CONFIG lost_visit ''Berkeley Unified'' ?s1) = Raise OtherException"
    by code_simp
  then have a6: "process_term WEBSITE_CONFIG (site ?w ''Berkeley Unified'') ''Berkeley Unified'' ?s1
      = (Raise OtherException, snd (process_term WEBSITE_CONFIG lost_visit ''Berkeley Unified'' ?s1))"
    unfolding site by (simp add: prod_eq_iff)
  have a7: "Raise OtherException \<noteq> Normal" by simp
  have key: "input_column WEBSITE_CONFIG = ''District Name''" by (simp add: WEBSITE_CONFIG_def)
  have frame: "merge_left ''District Name''
         [sample_row ''Alameda Unified'', sample_row ''Berkeley Unified'', sample_row ''Nowhere'']
         [?rec]
     = [(sample_row ''Alameda Unified'', Some ?rec),
        (sample_row ''Berkeley Unified'', None), (sample_row ''Nowhere'', None)]"
    by (simp add: merge_left_def merge_row_def matches_of_def sample_row_def)
  note run = fatal_failure_saves_collected_records[OF a1 a2 a3 a4 a5 a6 a7]
  have e: "ending (run_scraper_with_config WEBSITE_CONFIG ?w) = Some (Raise OtherException)"
    using run[THEN conjunct1] .
  have r: "scraped_records (final (run_scraper_with_config WEBSITE_CONFIG ?w)) = [?rec]"
    using run[THEN conjunct2, THEN conjunct1] by (simp only: recs)
  have "to_excel_call (run_scraper_with_config WEBSITE_CONFIG ?w) =
          Some (merge_left ''District Name''
            [sample_row ''Alameda Unified'', sample_row ''Berkeley Unified'', sample_row ''Nowhere'']
            [?rec])"
    using run[THEN conjunct2, THEN conjunct2, THEN conjunct1] unfolding recs key by simp
  then have c: "to_excel_call (run_scraper_with_config WEBSITE_CONFIG ?w) =
          Some [(sample_row ''Alameda Unified'', Some ?rec),
                (sample_row ''Berkeley Unified'', None), (sample_row ''Nowhere'', None)]"
    by (simp only: frame)
  have q: "last (driver_calls (final (run_scraper_with_config WEBSITE_CONFIG ?w))) = Quit"
    using run[THEN conjunct2, THEN conjunct2, THEN conjunct2, THEN conjunct2, THEN conjunct2] .
  from e r c q show ?thesis by (intro conjI)
qed






end
